theory Spec2Isabelle
  imports Main
begin

section \<open>The finite-state-machine engine (class StateMachine)\<close>

text \<open>
  The engine is the class \<^verbatim>\<open>StateMachine\<close> of the TypeScript sources (the browser
  script \<^verbatim>\<open>public/js/main.js\<close> carries the same methods, line for line).

  A machine is a mutable object whose callbacks (\<^verbatim>\<open>onEnter\<close>, \<^verbatim>\<open>onExit\<close>,
  \<^verbatim>\<open>onUpdate\<close>, guards, actions) are closures over the whole program state: they may
  read and write other objects, call back into the machine that invoked them, or throw.
  The embedding therefore keeps every machine in an explicit store, addressed by an
  identity \<open>'i\<close> (the \<^verbatim>\<open>this\<close> of a method), and represents a closure by an
  identifier \<open>'c\<close> that a runtime interprets as a transformer of the whole store.
  The \<^verbatim>\<open>history\<close> array is the one object of a machine of which a method hands out
  a (copied) reference, so string arrays are heap cells with addresses.

  Console output (\<^verbatim>\<open>console.log\<close>, the \<^verbatim>\<open>debug\<close> flag and the private method
  \<^verbatim>\<open>log\<close>) is write-only and never read back by the program; it is not modelled.
\<close>

type_synonym event = string

text \<open>
  The sources throw plain \<^verbatim>\<open>Error\<close> objects told apart by their message. Each
  constructor stands for one family of messages:
  \<^item> \<open>DuplicateStateError n\<close>: \<^verbatim>\<open>State 'n' already exists\<close>;
  \<^item> \<open>UnknownStateError InAddTransitionSource n\<close>: \<^verbatim>\<open>Source state 'n' does not exist\<close>;
  \<^item> \<open>UnknownStateError InAddTransitionTarget n\<close>: \<^verbatim>\<open>Target state 'n' does not exist\<close>;
  \<^item> \<open>UnknownStateError InStart n\<close>: \<^verbatim>\<open>Cannot start FSM: State 'n' not found\<close>;
  \<^item> \<open>UnknownStateError InTransitionTo n\<close>: \<^verbatim>\<open>Target state 'n' not found\<close>;
  \<^item> \<open>NotStartedError\<close>: \<^verbatim>\<open>FSM not started. Call start() first.\<close>;
  \<^item> \<open>AlreadyStartedError\<close>: \<^verbatim>\<open>FSM is already started. Use trigger() to change states.\<close>;
  \<^item> \<open>ApplicationError msg\<close>: an error thrown outside the engine (by a callback or a
    controller), with its message.
\<close>

datatype site = InAddTransitionSource | InAddTransitionTarget | InStart | InTransitionTo

datatype error =
    DuplicateStateError string
  | UnknownStateError site string
  | NotStartedError
  | AlreadyStartedError
  | ApplicationError string

text \<open>Interface \<^verbatim>\<open>State\<close>: a name and three optional callbacks.\<close>

record 'c State =
  name :: string
  onEnter :: "'c option"
  onExit :: "'c option"
  onUpdate :: "'c option"

text \<open>
  Interface \<^verbatim>\<open>Transition\<close>; the fields \<^verbatim>\<open>from\<close>, \<^verbatim>\<open>to\<close>, \<^verbatim>\<open>event\<close>,
  \<^verbatim>\<open>guard\<close>, \<^verbatim>\<open>action\<close> carry the prefix \<open>tr_\<close>.
\<close>

record 'c Transition =
  tr_from :: string
  tr_to :: string
  tr_event :: event
  tr_guard :: "'c option"
  tr_action :: "'c option"

text \<open>
  The private fields of \<^verbatim>\<open>StateMachine\<close>. \<open>currentState\<close> is \<open>None\<close> for
  \<^verbatim>\<open>null\<close>; \<open>states\<close> is the \<^verbatim>\<open>Map<string, State>\<close>; \<open>history\<close> is the address
  of the machine's history array.
\<close>

record 'c StateMachine =
  currentState :: "'c State option"
  states :: "string \<rightharpoonup> 'c State"
  transitions :: "'c Transition list"
  history :: nat

text \<open>
  The store: the machine objects, the heap of string arrays with its allocation pointer,
  and whatever else the callbacks of an application close over (\<open>env\<close>).
\<close>

record ('i, 'c, 'u) world =
  machines :: "'i \<Rightarrow> 'c StateMachine"
  arrays :: "nat \<Rightarrow> string list"
  nextAddr :: nat
  env :: 'u

text \<open>
  The runtime gives the callbacks their meaning. A \<^verbatim>\<open>() => void\<close> callback returns the
  error it threw, if any, and the store it left behind; \<^verbatim>\<open>onUpdate\<close> also takes the
  elapsed time; a guard returns its boolean or throws, and may write to the store.
  The engine hands the elapsed time to \<^verbatim>\<open>onUpdate\<close> as it received it and computes
  nothing with it, so the type \<open>'n\<close> of numbers is a parameter of the runtime.
\<close>

record ('i, 'c, 'u, 'n) runtime =
  call :: "'c \<Rightarrow> ('i, 'c, 'u) world \<Rightarrow> error option \<times> ('i, 'c, 'u) world"
  callUpdate :: "'c \<Rightarrow> 'n \<Rightarrow> ('i, 'c, 'u) world \<Rightarrow> error option \<times> ('i, 'c, 'u) world"
  evalGuard :: "'c \<Rightarrow> ('i, 'c, 'u) world \<Rightarrow> (error + bool) \<times> ('i, 'c, 'u) world"

subsection \<open>Small steps on the store\<close>

definition setMachine ::
  "'i \<Rightarrow> 'c StateMachine \<Rightarrow> ('i, 'c, 'u) world \<Rightarrow> ('i, 'c, 'u) world" where
  "setMachine this m w = w\<lparr>machines := (machines w)(this := m)\<rparr>"

text \<open>\<^verbatim>\<open>this.history.push(stateName)\<close>\<close>

definition pushHistory :: "'i \<Rightarrow> string \<Rightarrow> ('i, 'c, 'u) world \<Rightarrow> ('i, 'c, 'u) world" where
  "pushHistory this stateName w =
     w\<lparr>arrays := (arrays w)(history (machines w this) :=
                  arrays w (history (machines w this)) @ [stateName])\<rparr>"

text \<open>An optional \<^verbatim>\<open>() => void\<close> callback: \<^verbatim>\<open>if (f) f()\<close>.\<close>

definition callOpt ::
  "('i, 'c, 'u, 'n) runtime \<Rightarrow> 'c option \<Rightarrow> ('i, 'c, 'u) world \<Rightarrow> error option \<times> ('i, 'c, 'u) world" where
  "callOpt rt f w = (case f of None \<Rightarrow> (None, w) | Some c \<Rightarrow> call rt c w)"

subsection \<open>Construction and registration\<close>

text \<open>\<^verbatim>\<open>new StateMachine()\<close>, stored under the identity \<open>this\<close>: the field initialisers.\<close>

definition newStateMachine :: "'i \<Rightarrow> ('i, 'c, 'u) world \<Rightarrow> ('i, 'c, 'u) world" where
  "newStateMachine this w =
     w\<lparr>machines := (machines w)(this :=
          \<lparr>currentState = None, states = Map.empty, transitions = [], history = nextAddr w\<rparr>),
       arrays := (arrays w)(nextAddr w := []),
       nextAddr := Suc (nextAddr w)\<rparr>"

definition addState ::
  "'i \<Rightarrow> 'c State \<Rightarrow> ('i, 'c, 'u) world \<Rightarrow> (error + unit) \<times> ('i, 'c, 'u) world" where
  "addState this state w =
     (let m = machines w this in
      if states m (name state) \<noteq> None then (Inl (DuplicateStateError (name state)), w)
      else (Inr (), setMachine this (m\<lparr>states := (states m)(name state \<mapsto> state)\<rparr>) w))"

definition addTransition ::
  "'i \<Rightarrow> 'c Transition \<Rightarrow> ('i, 'c, 'u) world \<Rightarrow> (error + unit) \<times> ('i, 'c, 'u) world" where
  "addTransition this transition w =
     (let m = machines w this in
      if tr_from transition \<noteq> ''*'' \<and> states m (tr_from transition) = None
      then (Inl (UnknownStateError InAddTransitionSource (tr_from transition)), w)
      else if states m (tr_to transition) = None
      then (Inl (UnknownStateError InAddTransitionTarget (tr_to transition)), w)
      else (Inr (), setMachine this (m\<lparr>transitions := transitions m @ [transition]\<rparr>) w))"

subsection \<open>start, trigger, transitionTo, update\<close>

definition start ::
  "('i, 'c, 'u, 'n) runtime \<Rightarrow> 'i \<Rightarrow> string \<Rightarrow> ('i, 'c, 'u) world
     \<Rightarrow> (error + unit) \<times> ('i, 'c, 'u) world" where
  "start rt this stateName w =
     (let m = machines w this in
      case states m stateName of
        None \<Rightarrow> (Inl (UnknownStateError InStart stateName), w)
      | Some state \<Rightarrow>
          if currentState m \<noteq> None then (Inl AlreadyStartedError, w)
          else
            let w1 = setMachine this (m\<lparr>currentState := Some state\<rparr>) w;
                w2 = pushHistory this stateName w1
            in case callOpt rt (onEnter state) w2 of
                 (Some e, w3) \<Rightarrow> (Inl e, w3)
               | (None, w3) \<Rightarrow> (Inr (), w3))"

text \<open>
  The predicate handed to \<^verbatim>\<open>transitions.find\<close>, without the guard:
  \<^verbatim>\<open>(t.from === currentStateName || t.from === '*') && t.event === event\<close>.
\<close>

definition matchesEvent :: "string \<Rightarrow> event \<Rightarrow> 'c Transition \<Rightarrow> bool" where
  "matchesEvent currentStateName ev t =
     ((tr_from t = currentStateName \<or> tr_from t = ''*'') \<and> tr_event t = ev)"

text \<open>
  \<^verbatim>\<open>this.transitions.find(t => ... && (!t.guard || t.guard()))\<close>: the scan of the array
  from index 0. \<^verbatim>\<open>&&\<close> and \<^verbatim>\<open>||\<close> short-circuit, so a guard runs only on a rule whose
  source and event match, and the scan stops at the first rule accepted. The array only
  grows, so the scan of the list read at the start is the scan of the live array.
\<close>

fun findTransition ::
  "('i, 'c, 'u, 'n) runtime \<Rightarrow> string \<Rightarrow> event \<Rightarrow> 'c Transition list \<Rightarrow> ('i, 'c, 'u) world
     \<Rightarrow> (error + 'c Transition option) \<times> ('i, 'c, 'u) world" where
  "findTransition rt currentStateName ev [] w = (Inr None, w)"
| "findTransition rt currentStateName ev (t # ts) w =
     (if matchesEvent currentStateName ev t then
        (case tr_guard t of
           None \<Rightarrow> (Inr (Some t), w)
         | Some g \<Rightarrow>
             (case evalGuard rt g w of
                (Inl e, w') \<Rightarrow> (Inl e, w')
              | (Inr b, w') \<Rightarrow>
                  if b then (Inr (Some t), w')
                  else findTransition rt currentStateName ev ts w'))
      else findTransition rt currentStateName ev ts w)"

definition transitionTo ::
  "('i, 'c, 'u, 'n) runtime \<Rightarrow> 'i \<Rightarrow> string \<Rightarrow> 'c option \<Rightarrow> ('i, 'c, 'u) world
     \<Rightarrow> (error + unit) \<times> ('i, 'c, 'u) world" where
  "transitionTo rt this stateName act w =
     (case states (machines w this) stateName of
        None \<Rightarrow> (Inl (UnknownStateError InTransitionTo stateName), w)
      | Some newState \<Rightarrow>
          (case callOpt rt (case currentState (machines w this) of
                              None \<Rightarrow> None | Some cs \<Rightarrow> onExit cs) w of
             (Some e, w1) \<Rightarrow> (Inl e, w1)
           | (None, w1) \<Rightarrow>
               (case callOpt rt act w1 of
                  (Some e, w2) \<Rightarrow> (Inl e, w2)
                | (None, w2) \<Rightarrow>
                    let w3 = setMachine this ((machines w2 this)\<lparr>currentState := Some newState\<rparr>) w2;
                        w4 = pushHistory this stateName w3
                    in case callOpt rt (onEnter newState) w4 of
                         (Some e, w5) \<Rightarrow> (Inl e, w5)
                       | (None, w5) \<Rightarrow> (Inr (), w5))))"

definition trigger ::
  "('i, 'c, 'u, 'n) runtime \<Rightarrow> 'i \<Rightarrow> event \<Rightarrow> ('i, 'c, 'u) world
     \<Rightarrow> (error + bool) \<times> ('i, 'c, 'u) world" where
  "trigger rt this ev w =
     (case currentState (machines w this) of
        None \<Rightarrow> (Inl NotStartedError, w)
      | Some cs \<Rightarrow>
          (case findTransition rt (name cs) ev (transitions (machines w this)) w of
             (Inl e, w1) \<Rightarrow> (Inl e, w1)
           | (Inr None, w1) \<Rightarrow> (Inr False, w1)
           | (Inr (Some transition), w1) \<Rightarrow>
               (case transitionTo rt this (tr_to transition) (tr_action transition) w1 of
                  (Inl e, w2) \<Rightarrow> (Inl e, w2)
                | (Inr _, w2) \<Rightarrow> (Inr True, w2))))"

definition update ::
  "('i, 'c, 'u, 'n) runtime \<Rightarrow> 'i \<Rightarrow> 'n \<Rightarrow> ('i, 'c, 'u) world
     \<Rightarrow> (error + unit) \<times> ('i, 'c, 'u) world" where
  "update rt this deltaTime w =
     (case currentState (machines w this) of
        None \<Rightarrow> (Inl NotStartedError, w)
      | Some cs \<Rightarrow>
          (case onUpdate cs of
             None \<Rightarrow> (Inr (), w)
           | Some c \<Rightarrow>
               (case callUpdate rt c deltaTime w of
                  (Some e, w1) \<Rightarrow> (Inl e, w1)
                | (None, w1) \<Rightarrow> (Inr (), w1))))"

subsection \<open>Queries\<close>

definition getCurrentState :: "'i \<Rightarrow> ('i, 'c, 'u) world \<Rightarrow> error + string" where
  "getCurrentState this w =
     (case currentState (machines w this) of
        None \<Rightarrow> Inl NotStartedError
      | Some cs \<Rightarrow> Inr (name cs))"

text \<open>
  \<^verbatim>\<open>return [...this.history]\<close>: a new array with the elements of the history array; the
  caller receives its address.
\<close>

definition getHistory :: "'i \<Rightarrow> ('i, 'c, 'u) world \<Rightarrow> nat \<times> ('i, 'c, 'u) world" where
  "getHistory this w =
     (let a = nextAddr w
      in (a, w\<lparr>arrays := (arrays w)(a := arrays w (history (machines w this))),
               nextAddr := Suc a\<rparr>))"

definition canTransition ::
  "('i, 'c, 'u, 'n) runtime \<Rightarrow> 'i \<Rightarrow> event \<Rightarrow> ('i, 'c, 'u) world
     \<Rightarrow> (error + bool) \<times> ('i, 'c, 'u) world" where
  "canTransition rt this ev w =
     (case currentState (machines w this) of
        None \<Rightarrow> (Inr False, w)
      | Some cs \<Rightarrow>
          (case findTransition rt (name cs) ev (transitions (machines w this)) w of
             (Inl e, w1) \<Rightarrow> (Inl e, w1)
           | (Inr r, w1) \<Rightarrow> (Inr (r \<noteq> None), w1)))"

subsection \<open>The public methods as calls\<close>

text \<open>
  A client drives one machine through its public methods. A call that throws leaves the
  store as it was at the throw; the client may catch the error and go on.
\<close>

datatype ('c, 'n) request =
    AddState "'c State"
  | AddTransition "'c Transition"
  | Start string
  | Trigger event
  | Update 'n
  | CanTransition event
  | GetCurrentState
  | GetHistory

datatype reply = Done | Answered bool | Named string | Copied nat | Threw error

definition unitReply :: "(error + unit) \<times> 'w \<Rightarrow> reply \<times> 'w" where
  "unitReply r = (case r of (Inl e, w) \<Rightarrow> (Threw e, w) | (Inr _, w) \<Rightarrow> (Done, w))"

definition boolReply :: "(error + bool) \<times> 'w \<Rightarrow> reply \<times> 'w" where
  "boolReply r = (case r of (Inl e, w) \<Rightarrow> (Threw e, w) | (Inr b, w) \<Rightarrow> (Answered b, w))"

fun invoke ::
  "('i, 'c, 'u, 'n) runtime \<Rightarrow> 'i \<Rightarrow> ('c, 'n) request \<Rightarrow> ('i, 'c, 'u) world \<Rightarrow> reply \<times> ('i, 'c, 'u) world" where
  "invoke rt this (AddState s) w = unitReply (addState this s w)"
| "invoke rt this (AddTransition t) w = unitReply (addTransition this t w)"
| "invoke rt this (Start n) w = unitReply (start rt this n w)"
| "invoke rt this (Trigger ev) w = boolReply (trigger rt this ev w)"
| "invoke rt this (Update d) w = unitReply (update rt this d w)"
| "invoke rt this (CanTransition ev) w = boolReply (canTransition rt this ev w)"
| "invoke rt this GetCurrentState w =
     (case getCurrentState this w of Inl e \<Rightarrow> (Threw e, w) | Inr n \<Rightarrow> (Named n, w))"
| "invoke rt this GetHistory w = (case getHistory this w of (a, w') \<Rightarrow> (Copied a, w'))"

fun run ::
  "('i, 'c, 'u, 'n) runtime \<Rightarrow> 'i \<Rightarrow> ('c, 'n) request list \<Rightarrow> ('i, 'c, 'u) world \<Rightarrow> ('i, 'c, 'u) world" where
  "run rt this [] w = w"
| "run rt this (r # rs) w = run rt this rs (snd (invoke rt this r w))"

section \<open>Vocabulary of the properties\<close>

subsection \<open>The scan of the transition table\<close>

text \<open>
  Guards may write to the store, so the store in which a rule is examined is the one the
  guards of the earlier candidate rules left behind. \<open>afterGuard\<close> is the effect of
  examining one rule, \<open>guardWorld\<close> the effect of examining a list of rules in order.
\<close>

definition afterGuard ::
  "('i, 'c, 'u, 'n) runtime \<Rightarrow> string \<Rightarrow> event \<Rightarrow> 'c Transition \<Rightarrow> ('i, 'c, 'u) world
     \<Rightarrow> ('i, 'c, 'u) world" where
  "afterGuard rt cur ev t w =
     (if matchesEvent cur ev t
      then (case tr_guard t of None \<Rightarrow> w | Some g \<Rightarrow> snd (evalGuard rt g w))
      else w)"

fun guardWorld ::
  "('i, 'c, 'u, 'n) runtime \<Rightarrow> string \<Rightarrow> event \<Rightarrow> 'c Transition list \<Rightarrow> ('i, 'c, 'u) world
     \<Rightarrow> ('i, 'c, 'u) world" where
  "guardWorld rt cur ev [] w = w"
| "guardWorld rt cur ev (t # ts) w = guardWorld rt cur ev ts (afterGuard rt cur ev t w)"

text \<open>
  A rule passes in a store when its source is the current state or the wildcard, its
  event is the triggered one, and its guard is absent or returns true there. It fails
  when source or event do not fit, or its guard returns false there.
\<close>

definition passes ::
  "('i, 'c, 'u, 'n) runtime \<Rightarrow> string \<Rightarrow> event \<Rightarrow> 'c Transition \<Rightarrow> ('i, 'c, 'u) world \<Rightarrow> bool" where
  "passes rt cur ev t w =
     ((tr_from t = cur \<or> tr_from t = ''*'') \<and> tr_event t = ev \<and>
      (case tr_guard t of None \<Rightarrow> True | Some g \<Rightarrow> fst (evalGuard rt g w) = Inr True))"

definition fails ::
  "('i, 'c, 'u, 'n) runtime \<Rightarrow> string \<Rightarrow> event \<Rightarrow> 'c Transition \<Rightarrow> ('i, 'c, 'u) world \<Rightarrow> bool" where
  "fails rt cur ev t w =
     (if (tr_from t = cur \<or> tr_from t = ''*'') \<and> tr_event t = ev
      then (case tr_guard t of None \<Rightarrow> False | Some g \<Rightarrow> fst (evalGuard rt g w) = Inr False)
      else True)"

text \<open>The result of \<^verbatim>\<open>trigger\<close> once \<^verbatim>\<open>transitionTo\<close> has run.\<close>

definition triggered :: "(error + unit) \<times> 'w \<Rightarrow> (error + bool) \<times> 'w" where
  "triggered r = (case r of (Inl e, w) \<Rightarrow> (Inl e, w) | (Inr _, w) \<Rightarrow> (Inr True, w))"

text \<open>A call of \<^verbatim>\<open>trigger\<close> as a statement: its boolean is dropped, its error kept.\<close>

definition dropAnswer :: "(error + bool) \<times> 'w \<Rightarrow> error option \<times> 'w" where
  "dropAnswer r = (case r of (Inl e, w) \<Rightarrow> (Some e, w) | (Inr _, w) \<Rightarrow> (None, w))"

subsection \<open>Callbacks that keep to themselves\<close>

text \<open>
  \<open>sameObjects\<close>: two stores hold the same machines and arrays. A runtime is \<open>quiet\<close>
  when its callbacks write to \<open>env\<close> only and its \<^verbatim>\<open>() => void\<close> callbacks do not throw.
\<close>

definition sameObjects :: "('i, 'c, 'u) world \<Rightarrow> ('i, 'c, 'u) world \<Rightarrow> bool" where
  "sameObjects w w' =
     (machines w' = machines w \<and> arrays w' = arrays w \<and> nextAddr w' = nextAddr w)"

definition quiet :: "('i, 'c, 'u, 'n) runtime \<Rightarrow> bool" where
  "quiet rt =
     ((\<forall>c w. fst (call rt c w) = None \<and> sameObjects w (snd (call rt c w))) \<and>
      (\<forall>c d w. sameObjects w (snd (callUpdate rt c d w))) \<and>
      (\<forall>c w. sameObjects w (snd (evalGuard rt c w))))"

subsection \<open>History\<close>

text \<open>
  The states a client has seen its machine enter: the name given to a \<^verbatim>\<open>start\<close> that
  returned, and the state the machine reports after a \<^verbatim>\<open>trigger\<close> that returned true.
\<close>

definition entered :: "'i \<Rightarrow> ('c, 'n) request \<Rightarrow> reply \<times> ('i, 'c, 'u) world \<Rightarrow> string list" where
  "entered this r out =
     (case (r, fst out) of
        (Start n, Done) \<Rightarrow> [n]
      | (Trigger ev, Answered True) \<Rightarrow>
          (case getCurrentState this (snd out) of Inr n \<Rightarrow> [n] | Inl _ \<Rightarrow> [])
      | _ \<Rightarrow> [])"

fun visited ::
  "('i, 'c, 'u, 'n) runtime \<Rightarrow> 'i \<Rightarrow> ('c, 'n) request list \<Rightarrow> ('i, 'c, 'u) world \<Rightarrow> string list" where
  "visited rt this [] w = []"
| "visited rt this (r # rs) w =
     entered this r (invoke rt this r w) @ visited rt this rs (snd (invoke rt this r w))"

text \<open>What \<^verbatim>\<open>getHistory()\<close> returns: the elements of the array it hands out.\<close>

definition historyCopy :: "'i \<Rightarrow> ('i, 'c, 'u) world \<Rightarrow> string list" where
  "historyCopy this w = arrays (snd (getHistory this w)) (fst (getHistory this w))"

text \<open>The client overwrites the array at address \<open>a\<close>.\<close>

definition overwrite :: "nat \<Rightarrow> string list \<Rightarrow> ('i, 'c, 'u) world \<Rightarrow> ('i, 'c, 'u) world" where
  "overwrite a xs w = w\<lparr>arrays := (arrays w)(a := xs)\<rparr>"

text \<open>
  \<open>agrees\<close>: the machine has a current state exactly when its history is not empty, and
  then the current state is the last entry. \<open>housed\<close>: the history array has been
  allocated and every state is registered under its own name, as \<^verbatim>\<open>new StateMachine()\<close>
  and \<^verbatim>\<open>addState\<close> leave a machine. \<open>intact\<close> is both. A runtime \<open>keepsIntact\<close> a
  machine when its callbacks leave it intact.
\<close>

definition agrees :: "'i \<Rightarrow> ('i, 'c, 'u) world \<Rightarrow> bool" where
  "agrees this w =
     (case getCurrentState this w of
        Inl _ \<Rightarrow> historyCopy this w = []
      | Inr n \<Rightarrow> historyCopy this w \<noteq> [] \<and> last (historyCopy this w) = n)"

definition housed :: "'i \<Rightarrow> ('i, 'c, 'u) world \<Rightarrow> bool" where
  "housed this w =
     (history (machines w this) < nextAddr w \<and>
      (\<forall>n s. states (machines w this) n = Some s \<longrightarrow> name s = n))"

definition intact :: "'i \<Rightarrow> ('i, 'c, 'u) world \<Rightarrow> bool" where
  "intact this w = (agrees this w \<and> housed this w)"

text \<open>\<open>extends this w xs w'\<close>: from \<open>w\<close> to \<open>w'\<close> the history of the machine grew by \<open>xs\<close>.\<close>

definition extends :: "'i \<Rightarrow> ('i, 'c, 'u) world \<Rightarrow> string list \<Rightarrow> ('i, 'c, 'u) world \<Rightarrow> bool" where
  "extends this w xs w' =
     (housed this w' \<and> history (machines w' this) = history (machines w this) \<and>
      arrays w' (history (machines w this)) = arrays w (history (machines w this)) @ xs)"

definition keepsIntact :: "('i, 'c, 'u, 'n) runtime \<Rightarrow> 'i \<Rightarrow> bool" where
  "keepsIntact rt this =
     ((\<forall>c w. intact this w \<longrightarrow> intact this (snd (call rt c w))) \<and>
      (\<forall>c d w. intact this w \<longrightarrow> intact this (snd (callUpdate rt c d w))) \<and>
      (\<forall>c w. intact this w \<longrightarrow> intact this (snd (evalGuard rt c w))))"

subsection \<open>The states a machine enters\<close>

text \<open>
  A callback may call the public methods of the machine that runs it, as the
  \<^verbatim>\<open>onUpdate\<close> of a light state calls \<^verbatim>\<open>this.fsm.trigger\<close>; the machine then enters
  states in the middle of another call. An \<open>account\<close> says, for each callback and the
  store it is called in, which states that call makes the machine enter, in order (none,
  for a callback that leaves the machine alone).
\<close>

record ('i, 'c, 'u, 'n) account =
  enters :: "'c \<Rightarrow> ('i, 'c, 'u) world \<Rightarrow> string list"
  entersOnUpdate :: "'c \<Rightarrow> 'n \<Rightarrow> ('i, 'c, 'u) world \<Rightarrow> string list"
  entersInGuard :: "'c \<Rightarrow> ('i, 'c, 'u) world \<Rightarrow> string list"

definition entersOpt ::
  "('i, 'c, 'u, 'n) account \<Rightarrow> 'c option \<Rightarrow> ('i, 'c, 'u) world \<Rightarrow> string list" where
  "entersOpt acc f w = (case f of None \<Rightarrow> [] | Some c \<Rightarrow> enters acc c w)"

text \<open>
  The states the machine enters during one call, in order. They follow the methods
  statement by statement: \<^verbatim>\<open>start\<close> and \<^verbatim>\<open>transitionTo\<close> enter a state where they
  assign \<^verbatim>\<open>this.currentState\<close>, that is once \<^verbatim>\<open>start\<close> is past its two checks, and
  once \<^verbatim>\<open>transitionTo\<close> has found the target and \<^verbatim>\<open>onExit\<close> and the action have
  returned; \<^verbatim>\<open>onEnter\<close> runs after the entry, so an \<^verbatim>\<open>onEnter\<close> that throws does
  not undo it. Around these come the states the callbacks make the machine enter, as the
  account tells, each callback in the store it is called in.
\<close>

definition startEntries ::
  "('i, 'c, 'u, 'n) runtime \<Rightarrow> ('i, 'c, 'u, 'n) account \<Rightarrow> 'i \<Rightarrow> string \<Rightarrow> ('i, 'c, 'u) world
     \<Rightarrow> string list" where
  "startEntries rt acc this stateName w =
     (let m = machines w this in
      case states m stateName of
        None \<Rightarrow> []
      | Some state \<Rightarrow>
          if currentState m \<noteq> None then []
          else
            let w1 = setMachine this (m\<lparr>currentState := Some state\<rparr>) w;
                w2 = pushHistory this stateName w1
            in stateName # entersOpt acc (onEnter state) w2)"

fun scanEntries ::
  "('i, 'c, 'u, 'n) runtime \<Rightarrow> ('i, 'c, 'u, 'n) account \<Rightarrow> string \<Rightarrow> event \<Rightarrow> 'c Transition list
     \<Rightarrow> ('i, 'c, 'u) world \<Rightarrow> string list" where
  "scanEntries rt acc currentStateName ev [] w = []"
| "scanEntries rt acc currentStateName ev (t # ts) w =
     (if matchesEvent currentStateName ev t then
        (case tr_guard t of
           None \<Rightarrow> []
         | Some g \<Rightarrow>
             entersInGuard acc g w @
             (case evalGuard rt g w of
                (Inl e, w') \<Rightarrow> []
              | (Inr b, w') \<Rightarrow>
                  if b then [] else scanEntries rt acc currentStateName ev ts w'))
      else scanEntries rt acc currentStateName ev ts w)"

definition transitionEntries ::
  "('i, 'c, 'u, 'n) runtime \<Rightarrow> ('i, 'c, 'u, 'n) account \<Rightarrow> 'i \<Rightarrow> string \<Rightarrow> 'c option
     \<Rightarrow> ('i, 'c, 'u) world \<Rightarrow> string list" where
  "transitionEntries rt acc this stateName act w =
     (case states (machines w this) stateName of
        None \<Rightarrow> []
      | Some newState \<Rightarrow>
          (let leave = (case currentState (machines w this) of
                          None \<Rightarrow> None | Some cs \<Rightarrow> onExit cs)
           in entersOpt acc leave w @
              (case callOpt rt leave w of
                 (Some e, w1) \<Rightarrow> []
               | (None, w1) \<Rightarrow>
                   entersOpt acc act w1 @
                   (case callOpt rt act w1 of
                      (Some e, w2) \<Rightarrow> []
                    | (None, w2) \<Rightarrow>
                        let w3 = setMachine this ((machines w2 this)\<lparr>currentState := Some newState\<rparr>) w2;
                            w4 = pushHistory this stateName w3
                        in stateName # entersOpt acc (onEnter newState) w4))))"

definition triggerEntries ::
  "('i, 'c, 'u, 'n) runtime \<Rightarrow> ('i, 'c, 'u, 'n) account \<Rightarrow> 'i \<Rightarrow> event \<Rightarrow> ('i, 'c, 'u) world
     \<Rightarrow> string list" where
  "triggerEntries rt acc this ev w =
     (case currentState (machines w this) of
        None \<Rightarrow> []
      | Some cs \<Rightarrow>
          scanEntries rt acc (name cs) ev (transitions (machines w this)) w @
          (case findTransition rt (name cs) ev (transitions (machines w this)) w of
             (Inl e, w1) \<Rightarrow> []
           | (Inr None, w1) \<Rightarrow> []
           | (Inr (Some transition), w1) \<Rightarrow>
               transitionEntries rt acc this (tr_to transition) (tr_action transition) w1))"

definition updateEntries ::
  "('i, 'c, 'u, 'n) account \<Rightarrow> 'i \<Rightarrow> 'n \<Rightarrow> ('i, 'c, 'u) world \<Rightarrow> string list" where
  "updateEntries acc this deltaTime w =
     (case currentState (machines w this) of
        None \<Rightarrow> []
      | Some cs \<Rightarrow>
          (case onUpdate cs of
             None \<Rightarrow> []
           | Some c \<Rightarrow> entersOnUpdate acc c deltaTime w))"

definition canTransitionEntries ::
  "('i, 'c, 'u, 'n) runtime \<Rightarrow> ('i, 'c, 'u, 'n) account \<Rightarrow> 'i \<Rightarrow> event \<Rightarrow> ('i, 'c, 'u) world
     \<Rightarrow> string list" where
  "canTransitionEntries rt acc this ev w =
     (case currentState (machines w this) of
        None \<Rightarrow> []
      | Some cs \<Rightarrow> scanEntries rt acc (name cs) ev (transitions (machines w this)) w)"

fun entries ::
  "('i, 'c, 'u, 'n) runtime \<Rightarrow> ('i, 'c, 'u, 'n) account \<Rightarrow> 'i \<Rightarrow> ('c, 'n) request
     \<Rightarrow> ('i, 'c, 'u) world \<Rightarrow> string list" where
  "entries rt acc this (AddState s) w = []"
| "entries rt acc this (AddTransition t) w = []"
| "entries rt acc this (Start n) w = startEntries rt acc this n w"
| "entries rt acc this (Trigger ev) w = triggerEntries rt acc this ev w"
| "entries rt acc this (Update d) w = updateEntries acc this d w"
| "entries rt acc this (CanTransition ev) w = canTransitionEntries rt acc this ev w"
| "entries rt acc this GetCurrentState w = []"
| "entries rt acc this GetHistory w = []"

fun journal ::
  "('i, 'c, 'u, 'n) runtime \<Rightarrow> ('i, 'c, 'u, 'n) account \<Rightarrow> 'i \<Rightarrow> ('c, 'n) request list
     \<Rightarrow> ('i, 'c, 'u) world \<Rightarrow> string list" where
  "journal rt acc this [] w = []"
| "journal rt acc this (r # rs) w =
     entries rt acc this r w @ journal rt acc this rs (snd (invoke rt this r w))"

text \<open>
  A runtime is \<open>accounted\<close> for by an account when, from every store in which the machine
  is housed, each callback adds to the history of the machine exactly the states the
  account says it makes the machine enter, and leaves the machine housed. The store may
  be supposed to satisfy a condition \<open>ok\<close> that the callbacks keep and that is \<open>steady\<close>:
  it depends only on the other machines, on \<open>env\<close> and on the address of the history
  array of this machine, which no method of this machine changes. \<open>reaches\<close> is
  \<open>extends\<close> together with \<open>ok\<close>. The \<open>silent\<close> account is the one of callbacks that
  leave the machine alone.
\<close>

definition steady :: "'i \<Rightarrow> (('i, 'c, 'u) world \<Rightarrow> bool) \<Rightarrow> bool" where
  "steady this ok =
     (\<forall>w w'. ok w \<and> (\<forall>j. j \<noteq> this \<longrightarrow> machines w' j = machines w j) \<and>
             history (machines w' this) = history (machines w this) \<and> env w' = env w
             \<longrightarrow> ok w')"

definition reaches ::
  "'i \<Rightarrow> (('i, 'c, 'u) world \<Rightarrow> bool) \<Rightarrow> ('i, 'c, 'u) world \<Rightarrow> string list \<Rightarrow> ('i, 'c, 'u) world \<Rightarrow> bool" where
  "reaches this ok w xs w' = (extends this w xs w' \<and> ok w')"

definition accounted ::
  "('i, 'c, 'u, 'n) runtime \<Rightarrow> ('i, 'c, 'u, 'n) account \<Rightarrow> 'i \<Rightarrow> (('i, 'c, 'u) world \<Rightarrow> bool) \<Rightarrow> bool" where
  "accounted rt acc this ok =
     ((\<forall>c w. housed this w \<and> ok w \<longrightarrow> reaches this ok w (enters acc c w) (snd (call rt c w))) \<and>
      (\<forall>c d w. housed this w \<and> ok w \<longrightarrow>
                reaches this ok w (entersOnUpdate acc c d w) (snd (callUpdate rt c d w))) \<and>
      (\<forall>c w. housed this w \<and> ok w \<longrightarrow>
              reaches this ok w (entersInGuard acc c w) (snd (evalGuard rt c w))))"

definition silent :: "('i, 'c, 'u, 'n) account" where
  "silent = \<lparr>enters = (\<lambda>c w. []), entersOnUpdate = (\<lambda>c d w. []), entersInGuard = (\<lambda>c w. [])\<rparr>"

section \<open>Fixtures of the test suite\<close>

text \<open>
  The callbacks the test suite \<^verbatim>\<open>StateMachine.test.ts\<close> hands to the engine: one that
  appends a label to a shared call-order array (here together with the state the machine
  reports at that moment), a guard with a fixed answer, and a guard that leaves a mark
  before it answers. \<open>Fire ev\<close> is an \<^verbatim>\<open>onUpdate\<close> that calls \<^verbatim>\<open>fsm.trigger(ev)\<close>, as
  the light states do; it is given its meaning by \<open>firingRuntime\<close> below. The machine
  under test has the identity \<open>0\<close>.
\<close>

datatype probe = Push string | Answer bool | PushAnswer string bool | Fire event

type_synonym ledger = "(string \<times> (error + string)) list"

definition emptyStore :: "'u \<Rightarrow> ('i, 'c, 'u) world" where
  "emptyStore u =
     \<lparr>machines = (\<lambda>_. \<lparr>currentState = None, states = Map.empty, transitions = [], history = 0\<rparr>),
      arrays = (\<lambda>_. []), nextAddr = 0, env = u\<rparr>"

definition mark :: "string \<Rightarrow> (nat, probe, ledger) world \<Rightarrow> (nat, probe, ledger) world" where
  "mark l w = w\<lparr>env := env w @ [(l, getCurrentState 0 w)]\<rparr>"

fun probeCall :: "probe \<Rightarrow> (nat, probe, ledger) world \<Rightarrow> error option \<times> (nat, probe, ledger) world" where
  "probeCall (Push l) w = (None, mark l w)"
| "probeCall (Answer b) w = (None, w)"
| "probeCall (PushAnswer l b) w = (None, mark l w)"
| "probeCall (Fire ev) w = (None, w)"

fun probeGuard :: "probe \<Rightarrow> (nat, probe, ledger) world \<Rightarrow> (error + bool) \<times> (nat, probe, ledger) world" where
  "probeGuard (Push l) w = (Inr True, mark l w)"
| "probeGuard (Answer b) w = (Inr b, w)"
| "probeGuard (PushAnswer l b) w = (Inr b, mark l w)"
| "probeGuard (Fire ev) w = (Inr True, w)"

definition probeRuntime :: "(nat, probe, ledger, int) runtime" where
  "probeRuntime = \<lparr>call = probeCall, callUpdate = (\<lambda>c d. probeCall c), evalGuard = probeGuard\<rparr>"

definition firingRuntime :: "(nat, probe, ledger, int) runtime" where
  "firingRuntime =
     \<lparr>call = probeCall,
      callUpdate = (\<lambda>c d w. case c of
                      Fire ev \<Rightarrow> dropAnswer (trigger probeRuntime 0 ev w)
                    | _ \<Rightarrow> probeCall c w),
      evalGuard = probeGuard\<rparr>"

definition plainState :: "string \<Rightarrow> probe State" where
  "plainState n = \<lparr>name = n, onEnter = None, onExit = None, onUpdate = None\<rparr>"

definition plainRule :: "string \<Rightarrow> string \<Rightarrow> event \<Rightarrow> probe Transition" where
  "plainRule a b ev = \<lparr>tr_from = a, tr_to = b, tr_event = ev, tr_guard = None, tr_action = None\<rparr>"

text \<open>\<^verbatim>\<open>fsm = new StateMachine(false)\<close> followed by the given calls.\<close>

definition script :: "(probe, int) request list \<Rightarrow> (nat, probe, ledger) world" where
  "script rs = run probeRuntime 0 rs (newStateMachine 0 (emptyStore []))"

text \<open>The machine of the test \<^verbatim>\<open>should call lifecycle methods in correct order\<close>, started.\<close>

definition lifecycle :: "(probe, int) request list" where
  "lifecycle =
     [AddState \<lparr>name = ''A'', onEnter = Some (Push ''A-enter''), onExit = Some (Push ''A-exit''),
                onUpdate = None\<rparr>,
      AddState \<lparr>name = ''B'', onEnter = Some (Push ''B-enter''), onExit = None, onUpdate = None\<rparr>,
      AddTransition \<lparr>tr_from = ''A'', tr_to = ''B'', tr_event = ''GO'', tr_guard = None,
                     tr_action = Some (Push ''action'')\<rparr>,
      Start ''A'']"

text \<open>
  Callbacks that throw: the closure is its message. \<open>faulty\<close> is a state whose
  \<^verbatim>\<open>onEnter\<close> throws, \<open>faultyMachine\<close> a new machine with that state registered.
\<close>

definition throwingRuntime :: "(nat, string, unit, int) runtime" where
  "throwingRuntime =
     \<lparr>call = (\<lambda>msg w. (Some (ApplicationError msg), w)),
      callUpdate = (\<lambda>msg d w. (Some (ApplicationError msg), w)),
      evalGuard = (\<lambda>msg w. (Inl (ApplicationError msg), w))\<rparr>"

definition faulty :: "string State" where
  "faulty = \<lparr>name = ''A'', onEnter = Some ''enter failed'', onExit = None, onUpdate = None\<rparr>"

definition faultyMachine :: "(nat, string, unit) world" where
  "faultyMachine = run throwingRuntime 0 [AddState faulty] (newStateMachine 0 (emptyStore ()))"

text \<open>The machine of the history tests, with calls that change nothing in between.\<close>

definition tracked :: "(probe, int) request list" where
  "tracked =
     [AddState (plainState ''A''), AddState (plainState ''B''), AddState (plainState ''C''),
      AddTransition (plainRule ''A'' ''B'' ''NEXT''), AddTransition (plainRule ''B'' ''C'' ''NEXT''),
      Trigger ''NEXT'', Start ''A'', Trigger ''NEXT'', Trigger ''OTHER'', GetHistory,
      Trigger ''NEXT'', Trigger ''NEXT'']"

text \<open>A machine whose state \<^verbatim>\<open>A\<close> triggers \<^verbatim>\<open>GO\<close> from its \<^verbatim>\<open>onUpdate\<close>.\<close>

definition selfDriven :: "(nat, probe, ledger) world" where
  "selfDriven =
     run firingRuntime 0
       [AddState \<lparr>name = ''A'', onEnter = None, onExit = None, onUpdate = Some (Fire ''GO'')\<rparr>,
        AddState (plainState ''B''), AddTransition (plainRule ''A'' ''B'' ''GO''),
        Start ''A'', Update 16]
       (newStateMachine 0 (emptyStore []))"

text \<open>
  The calls that make \<open>selfDriven\<close>, and the account of the callbacks of
  \<open>firingRuntime\<close>: \<open>Fire ev\<close> makes the machine enter what \<^verbatim>\<open>trigger(ev)\<close> enters.
\<close>

definition selfDriving :: "(probe, int) request list" where
  "selfDriving =
     [AddState \<lparr>name = ''A'', onEnter = None, onExit = None, onUpdate = Some (Fire ''GO'')\<rparr>,
      AddState (plainState ''B''), AddTransition (plainRule ''A'' ''B'' ''GO''),
      Start ''A'', Update 16]"

definition firingAccount :: "(nat, probe, ledger, int) account" where
  "firingAccount =
     \<lparr>enters = (\<lambda>c w. []),
      entersOnUpdate = (\<lambda>c d w. case c of
                          Fire ev \<Rightarrow> triggerEntries probeRuntime silent 0 ev w
                        | _ \<Rightarrow> []),
      entersInGuard = (\<lambda>c w. [])\<rparr>"

text \<open>
  A rule from \<^verbatim>\<open>A\<close> whose guard answers false, registered before a wildcard rule for the
  same event whose guard answers true; both guards leave a mark.
\<close>

definition shadowed :: "(probe, int) request list" where
  "shadowed =
     [AddState (plainState ''A''), AddState (plainState ''B''), AddState (plainState ''C''),
      AddTransition \<lparr>tr_from = ''A'', tr_to = ''B'', tr_event = ''GO'',
                     tr_guard = Some (PushAnswer ''exact guard'' False), tr_action = None\<rparr>,
      AddTransition \<lparr>tr_from = ''*'', tr_to = ''C'', tr_event = ''GO'',
                     tr_guard = Some (PushAnswer ''wildcard guard'' True), tr_action = None\<rparr>,
      Start ''A'']"

text \<open>
  The same with a guardless rule from \<^verbatim>\<open>A\<close> for that event registered between the two.
\<close>

definition bypassed :: "(probe, int) request list" where
  "bypassed =
     [AddState (plainState ''A''), AddState (plainState ''B''), AddState (plainState ''C''),
      AddState (plainState ''D''),
      AddTransition \<lparr>tr_from = ''A'', tr_to = ''B'', tr_event = ''GO'',
                     tr_guard = Some (PushAnswer ''exact guard'' False), tr_action = None\<rparr>,
      AddTransition (plainRule ''A'' ''D'' ''GO''),
      AddTransition \<lparr>tr_from = ''*'', tr_to = ''C'', tr_event = ''GO'',
                     tr_guard = Some (PushAnswer ''wildcard guard'' True), tr_action = None\<rparr>,
      Start ''A'']"

section \<open>The traffic-light behaviours and the intersection controller\<close>

text \<open>
  The classes \<^verbatim>\<open>RedLightState\<close>, \<^verbatim>\<open>GreenLightState\<close>, \<^verbatim>\<open>YellowLightState\<close> and
  \<^verbatim>\<open>IntersectionController\<close>. The controller owns the machines \<^verbatim>\<open>northSouth\<close> and
  \<^verbatim>\<open>eastWest\<close> (the identities \<open>NS\<close> and \<open>EW\<close>) and six state objects, each with a
  private \<^verbatim>\<open>timer\<close>. Its methods \<^verbatim>\<open>start\<close>, \<^verbatim>\<open>stop\<close> and \<^verbatim>\<open>update\<close> are
  \<open>startController\<close>, \<open>stopController\<close> and \<open>updateController\<close> here, the plain names
  being those of the engine.
\<close>

datatype axis = NS | EW

datatype light = Red | Green | Yellow

fun lightName :: "light \<Rightarrow> string" where
  "lightName Red = ''RED''"
| "lightName Green = ''GREEN''"
| "lightName Yellow = ''YELLOW''"

text \<open>
  The literals that initialise the \<^verbatim>\<open>duration\<close> fields (\<^verbatim>\<open>30000\<close>, \<^verbatim>\<open>25000\<close>,
  \<^verbatim>\<open>5000\<close>, in milliseconds).
\<close>

fun duration :: "light \<Rightarrow> int" where
  "duration Red = 30000"
| "duration Green = 25000"
| "duration Yellow = 5000"

text \<open>
  The timers, the durations and the elapsed times are JavaScript numbers, that is IEEE 754
  doubles: their sum is rounded, and a comparison with \<^verbatim>\<open>NaN\<close> is false, so they are
  neither the integers nor the reals, and an elapsed time need not be whole (the browser
  passes the difference of two animation-frame timestamps). The light states use three
  things of numbers: the sum in \<^verbatim>\<open>this.timer += deltaTime\<close>, the comparison in
  \<^verbatim>\<open>this.timer >= this.duration\<close>, and the numbers that the literals \<^verbatim>\<open>0\<close>,
  \<^verbatim>\<open>30000\<close>, \<^verbatim>\<open>25000\<close>, \<^verbatim>\<open>5000\<close> denote. The embedding takes the type \<open>'n\<close> of
  numbers and these three as a parameter \<open>ar\<close> and supposes nothing about them: what is
  proved below of the light states and of the controller holds for every arithmetic,
  that of the doubles among them.
\<close>

record 'n arithmetic =
  addition :: "'n \<Rightarrow> 'n \<Rightarrow> 'n"
  greaterEq :: "'n \<Rightarrow> 'n \<Rightarrow> bool"
  literal :: "int \<Rightarrow> 'n"

text \<open>
  The fields of the controller besides its machines: the timers of the state objects,
  \<^verbatim>\<open>pedestrianWaiting\<close>, \<^verbatim>\<open>isRunning\<close>, and the callbacks handed to \<^verbatim>\<open>setTimeout\<close>
  that have not run yet (each one triggers \<^verbatim>\<open>TIMER_EXPIRED\<close> on the machine recorded).
\<close>

record 'n controller =
  timer :: "axis \<Rightarrow> light \<Rightarrow> 'n"
  pedestrianWaiting :: "axis \<Rightarrow> bool"
  isRunning :: bool
  timeouts :: "axis list"

text \<open>
  The closures of the controller and of its state objects:
  \<^item> \<open>LightEnter m l\<close>, \<open>LightExit m l\<close>, \<open>LightUpdate m l\<close>: the methods of the state
    object of colour \<open>l\<close> that belongs to machine \<open>m\<close>;
  \<^item> \<open>CanNSGoGreen\<close>, \<open>CanEWGoGreen\<close>: the guards of the two \<^verbatim>\<open>RED\<close> to \<^verbatim>\<open>GREEN\<close> rules;
  \<^item> \<open>Announce\<close>: an action that only writes to the console;
  \<^item> \<open>YellowToRed m\<close>: the action of the \<^verbatim>\<open>YELLOW\<close> to \<^verbatim>\<open>RED\<close> rule of machine \<open>m\<close>.
\<close>

datatype closure =
    LightEnter axis light
  | LightExit axis light
  | LightUpdate axis light
  | CanNSGoGreen
  | CanEWGoGreen
  | Announce
  | YellowToRed axis

type_synonym 'n crossing = "(axis, closure, 'n controller) world"

fun opposite :: "axis \<Rightarrow> axis" where
  "opposite NS = EW"
| "opposite EW = NS"

text \<open>
  \<open>setTimer m l v\<close> assigns \<open>v\<close> to the \<^verbatim>\<open>timer\<close> field of the state object of colour
  \<open>l\<close> of machine \<open>m\<close>.
\<close>

definition setTimer :: "axis \<Rightarrow> light \<Rightarrow> 'n \<Rightarrow> 'n crossing \<Rightarrow> 'n crossing" where
  "setTimer m l v w =
     w\<lparr>env := (env w)\<lparr>timer := (timer (env w))(m := (timer (env w) m)(l := v))\<rparr>\<rparr>"

text \<open>
  The \<^verbatim>\<open>() => void\<close> closures. \<^verbatim>\<open>onEnter\<close> resets the timer; \<^verbatim>\<open>onExit\<close> is the one
  inherited from \<^verbatim>\<open>BaseState\<close>; the \<^verbatim>\<open>YELLOW\<close> to \<^verbatim>\<open>RED\<close> action of a machine
  schedules a trigger on the other machine. The controller never stores a guard or an
  \<^verbatim>\<open>onUpdate\<close> in a slot called without arguments; those cases do nothing here.
\<close>

fun crossingCall ::
  "'n arithmetic \<Rightarrow> closure \<Rightarrow> 'n crossing \<Rightarrow> error option \<times> 'n crossing" where
  "crossingCall ar (LightEnter m l) w = (None, setTimer m l (literal ar 0) w)"
| "crossingCall ar (LightExit m l) w = (None, w)"
| "crossingCall ar Announce w = (None, w)"
| "crossingCall ar (YellowToRed m) w =
     (None, w\<lparr>env := (env w)\<lparr>timeouts := timeouts (env w) @ [opposite m]\<rparr>\<rparr>)"
| "crossingCall ar (LightUpdate m l) w = (None, w)"
| "crossingCall ar CanNSGoGreen w = (None, w)"
| "crossingCall ar CanEWGoGreen w = (None, w)"

text \<open>
  \<^verbatim>\<open>canNSGoGreen\<close> and \<^verbatim>\<open>canEWGoGreen\<close>: the other machine reports \<^verbatim>\<open>RED\<close>, or its
  \<^verbatim>\<open>getCurrentState\<close> throws and the \<^verbatim>\<open>catch\<close> answers \<^verbatim>\<open>true\<close>.
\<close>

definition canGoGreen :: "axis \<Rightarrow> 'n crossing \<Rightarrow> bool" where
  "canGoGreen peer w = (case getCurrentState peer w of Inr s \<Rightarrow> s = ''RED'' | Inl _ \<Rightarrow> True)"

fun crossingGuard :: "closure \<Rightarrow> 'n crossing \<Rightarrow> (error + bool) \<times> 'n crossing" where
  "crossingGuard CanNSGoGreen w = (Inr (canGoGreen EW w), w)"
| "crossingGuard CanEWGoGreen w = (Inr (canGoGreen NS w), w)"
| "crossingGuard c w = (Inr True, w)"

text \<open>
  \<^verbatim>\<open>trigger\<close> runs guards, \<^verbatim>\<open>onExit\<close>, actions and \<^verbatim>\<open>onEnter\<close>, never an
  \<^verbatim>\<open>onUpdate\<close>; so the \<^verbatim>\<open>this.fsm.trigger(...)\<close> inside an \<^verbatim>\<open>onUpdate\<close> is the engine's
  \<^verbatim>\<open>trigger\<close> under the runtime of those closures.
\<close>

definition innerRuntime :: "'n arithmetic \<Rightarrow> (axis, closure, 'n controller, 'n) runtime" where
  "innerRuntime ar =
     \<lparr>call = crossingCall ar, callUpdate = (\<lambda>c d w. (None, w)), evalGuard = crossingGuard\<rparr>"

text \<open>
  \<^verbatim>\<open>onUpdate(deltaTime)\<close> of the three light states:
  \<^verbatim>\<open>this.timer += deltaTime; if (this.timer >= this.duration) this.fsm.trigger('TIMER_EXPIRED')\<close>.
  The value \<^verbatim>\<open>trigger\<close> returns is dropped; what it throws propagates.
\<close>

fun crossingUpdate ::
  "'n arithmetic \<Rightarrow> closure \<Rightarrow> 'n \<Rightarrow> 'n crossing \<Rightarrow> error option \<times> 'n crossing" where
  "crossingUpdate ar (LightUpdate m l) deltaTime w =
     (let w1 = setTimer m l (addition ar (timer (env w) m l) deltaTime) w
      in if greaterEq ar (timer (env w1) m l) (literal ar (duration l))
         then (case trigger (innerRuntime ar) m ''TIMER_EXPIRED'' w1 of
                 (Inl e, w2) \<Rightarrow> (Some e, w2)
               | (Inr _, w2) \<Rightarrow> (None, w2))
         else (None, w1))"
| "crossingUpdate ar c deltaTime w = (None, w)"

definition crossingRuntime :: "'n arithmetic \<Rightarrow> (axis, closure, 'n controller, 'n) runtime" where
  "crossingRuntime ar =
     \<lparr>call = crossingCall ar, callUpdate = crossingUpdate ar, evalGuard = crossingGuard\<rparr>"

text \<open>The state objects and the transition tables of \<^verbatim>\<open>setupTrafficLights\<close>.\<close>

definition lightState :: "axis \<Rightarrow> light \<Rightarrow> closure State" where
  "lightState m l =
     \<lparr>name = lightName l, onEnter = Some (LightEnter m l), onExit = Some (LightExit m l),
      onUpdate = Some (LightUpdate m l)\<rparr>"

definition lightRules :: "axis \<Rightarrow> closure Transition list" where
  "lightRules m =
     [\<lparr>tr_from = ''RED'', tr_to = ''GREEN'', tr_event = ''TIMER_EXPIRED'',
       tr_guard = Some (case m of NS \<Rightarrow> CanNSGoGreen | EW \<Rightarrow> CanEWGoGreen),
       tr_action = Some Announce\<rparr>,
      \<lparr>tr_from = ''GREEN'', tr_to = ''YELLOW'', tr_event = ''TIMER_EXPIRED'',
       tr_guard = None, tr_action = Some Announce\<rparr>,
      \<lparr>tr_from = ''YELLOW'', tr_to = ''RED'', tr_event = ''TIMER_EXPIRED'',
       tr_guard = None, tr_action = Some (YellowToRed m)\<rparr>,
      \<lparr>tr_from = ''*'', tr_to = ''RED'', tr_event = ''EMERGENCY_OVERRIDE'',
       tr_guard = None, tr_action = None\<rparr>]"

text \<open>The rule \<^verbatim>\<open>addEmergencyTransitions\<close> adds to each machine.\<close>

definition forceGreenRule :: "closure Transition" where
  "forceGreenRule =
     \<lparr>tr_from = ''*'', tr_to = ''GREEN'', tr_event = ''FORCE_GREEN'',
      tr_guard = None, tr_action = Some Announce\<rparr>"

text \<open>Statements in sequence: the second runs unless the first throws.\<close>

definition andThen ::
  "('w \<Rightarrow> (error + 'a) \<times> 'w) \<Rightarrow> ('w \<Rightarrow> (error + 'b) \<times> 'w) \<Rightarrow> 'w \<Rightarrow> (error + 'b) \<times> 'w" where
  "andThen f g w = (case f w of (Inl e, w1) \<Rightarrow> (Inl e, w1) | (Inr _, w1) \<Rightarrow> g w1)"

text \<open>\<^verbatim>\<open>xs.forEach(x => f(x))\<close>\<close>

fun forEach :: "('x \<Rightarrow> 'w \<Rightarrow> (error + unit) \<times> 'w) \<Rightarrow> 'x list \<Rightarrow> 'w \<Rightarrow> (error + unit) \<times> 'w" where
  "forEach f [] w = (Inr (), w)"
| "forEach f (x # xs) w = andThen (f x) (forEach f xs) w"

text \<open>\<^verbatim>\<open>try { f() } catch { }\<close>\<close>

definition tryCatch :: "('w \<Rightarrow> (error + 'a) \<times> 'w) \<Rightarrow> 'w \<Rightarrow> (error + unit) \<times> 'w" where
  "tryCatch f w = (Inr (), snd (f w))"

definition setupTrafficLights :: "'n crossing \<Rightarrow> (error + unit) \<times> 'n crossing" where
  "setupTrafficLights =
     andThen (forEach (addState NS) [lightState NS Red, lightState NS Green, lightState NS Yellow])
    (andThen (forEach (addState EW) [lightState EW Red, lightState EW Green, lightState EW Yellow])
    (andThen (forEach (addTransition NS) (lightRules NS))
             (forEach (addTransition EW) (lightRules EW))))"

text \<open>
  \<^verbatim>\<open>new IntersectionController()\<close> on an empty store: the field initialisers, the two
  machines, \<^verbatim>\<open>setupTrafficLights\<close> (\<^verbatim>\<open>setupCoordination\<close> has an empty body).
\<close>

definition newIntersectionController :: "'n arithmetic \<Rightarrow> (error + unit) \<times> 'n crossing" where
  "newIntersectionController ar =
     setupTrafficLights
       (newStateMachine EW (newStateMachine NS
          (emptyStore \<lparr>timer = (\<lambda>_ _. literal ar 0), pedestrianWaiting = (\<lambda>_. False),
                       isRunning = False, timeouts = []\<rparr>)))"

definition setRunning :: "bool \<Rightarrow> 'n crossing \<Rightarrow> 'n crossing" where
  "setRunning b w = w\<lparr>env := (env w)\<lparr>isRunning := b\<rparr>\<rparr>"

definition startController :: "'n arithmetic \<Rightarrow> 'n crossing \<Rightarrow> (error + unit) \<times> 'n crossing" where
  "startController ar w =
     (if isRunning (env w)
      then (Inl (ApplicationError ''Intersection controller is already running''), w)
      else andThen (start (crossingRuntime ar) NS ''GREEN'')
           (andThen (start (crossingRuntime ar) EW ''RED'')
                    (\<lambda>w'. (Inr (), setRunning True w'))) w)"

definition stopController :: "'n crossing \<Rightarrow> (error + unit) \<times> 'n crossing" where
  "stopController w = (Inr (), setRunning False w)"

text \<open>
  One half of \<^verbatim>\<open>handlePedestrianRequests\<close>: a pedestrian waiting to cross direction
  \<open>d\<close> is served once machine \<open>d\<close> reports \<^verbatim>\<open>RED\<close>; a throwing query is ignored.
\<close>

definition servePedestrian :: "axis \<Rightarrow> 'n crossing \<Rightarrow> 'n crossing" where
  "servePedestrian d w =
     (if pedestrianWaiting (env w) d then
        (case getCurrentState d w of
           Inr s \<Rightarrow>
             if s = ''RED''
             then w\<lparr>env := (env w)\<lparr>pedestrianWaiting := (pedestrianWaiting (env w))(d := False)\<rparr>\<rparr>
             else w
         | Inl _ \<Rightarrow> w)
      else w)"

definition handlePedestrianRequests :: "'n crossing \<Rightarrow> (error + unit) \<times> 'n crossing" where
  "handlePedestrianRequests w = (Inr (), servePedestrian EW (servePedestrian NS w))"

definition updateController ::
  "'n arithmetic \<Rightarrow> 'n \<Rightarrow> 'n crossing \<Rightarrow> (error + unit) \<times> 'n crossing" where
  "updateController ar deltaTime w =
     (if \<not> isRunning (env w) then (Inr (), w)
      else andThen (update (crossingRuntime ar) NS deltaTime)
           (andThen (update (crossingRuntime ar) EW deltaTime) handlePedestrianRequests) w)"

definition pedestrianButtonPressed :: "axis \<Rightarrow> 'n crossing \<Rightarrow> (error + unit) \<times> 'n crossing" where
  "pedestrianButtonPressed direction w =
     (if \<not> isRunning (env w) then (Inr (), w)
      else (Inr (), w\<lparr>env := (env w)\<lparr>pedestrianWaiting :=
                         (pedestrianWaiting (env w))(direction := True)\<rparr>\<rparr>))"

definition addEmergencyTransitions :: "'n crossing \<Rightarrow> (error + unit) \<times> 'n crossing" where
  "addEmergencyTransitions =
     andThen (tryCatch (addTransition NS forceGreenRule))
             (tryCatch (addTransition EW forceGreenRule))"

definition emergencyVehicle ::
  "'n arithmetic \<Rightarrow> axis \<Rightarrow> 'n crossing \<Rightarrow> (error + unit) \<times> 'n crossing" where
  "emergencyVehicle ar direction w =
     (if \<not> isRunning (env w) then (Inr (), w)
      else andThen (trigger (crossingRuntime ar) direction ''EMERGENCY_OVERRIDE'')
           (andThen (trigger (crossingRuntime ar) direction ''FORCE_GREEN'')
           (andThen (trigger (crossingRuntime ar) (opposite direction) ''EMERGENCY_OVERRIDE'')
                    addEmergencyTransitions)) w)"

text \<open>
  A callback handed to \<^verbatim>\<open>setTimeout\<close> runs between two calls of the controller, at some
  point after it was scheduled: \<^verbatim>\<open>if (this.isRunning) target.trigger('TIMER_EXPIRED')\<close>.
  The delay is not modelled: any pending callback may be the next to run.
\<close>

definition timeoutFires ::
  "'n arithmetic \<Rightarrow> nat \<Rightarrow> 'n crossing \<Rightarrow> (error + unit) \<times> 'n crossing" where
  "timeoutFires ar k w =
     (if k < length (timeouts (env w)) then
        (let target = timeouts (env w) ! k;
             w1 = w\<lparr>env := (env w)\<lparr>timeouts := take k (timeouts (env w)) @ drop (Suc k) (timeouts (env w))\<rparr>\<rparr>
         in if isRunning (env w1)
            then andThen (trigger (crossingRuntime ar) target ''TIMER_EXPIRED'') (\<lambda>w'. (Inr (), w')) w1
            else (Inr (), w1))
      else (Inr (), w))"

text \<open>What can happen to a controller, and a run of such happenings from the store \<open>w\<close>.\<close>

datatype 'n happening =
    StartController
  | StopController
  | UpdateController 'n
  | PedestrianButtonPressed axis
  | EmergencyVehicle axis
  | TimeoutFires nat

fun happen ::
  "'n arithmetic \<Rightarrow> 'n happening \<Rightarrow> 'n crossing \<Rightarrow> (error + unit) \<times> 'n crossing" where
  "happen ar StartController w = startController ar w"
| "happen ar StopController w = stopController w"
| "happen ar (UpdateController d) w = updateController ar d w"
| "happen ar (PedestrianButtonPressed d) w = pedestrianButtonPressed d w"
| "happen ar (EmergencyVehicle d) w = emergencyVehicle ar d w"
| "happen ar (TimeoutFires k) w = timeoutFires ar k w"

fun happenAll :: "'n arithmetic \<Rightarrow> 'n happening list \<Rightarrow> 'n crossing \<Rightarrow> 'n crossing" where
  "happenAll ar [] w = w"
| "happenAll ar (h # hs) w = happenAll ar hs (snd (happen ar h w))"

subsection \<open>Vocabulary of the crossing\<close>

text \<open>
  \<open>wiredAs m M\<close>: the machine \<open>M\<close> has the three state objects of machine \<open>m\<close>
  registered under their names, its table is the one of \<^verbatim>\<open>setupTrafficLights\<close> followed
  by some number of force-green rules, and it has been started. A store is \<open>wired\<close> when
  both machines are.
\<close>

definition wiredAs :: "axis \<Rightarrow> closure StateMachine \<Rightarrow> bool" where
  "wiredAs m M =
     ((\<forall>l. states M (lightName l) = Some (lightState m l)) \<and>
      (\<exists>k. transitions M = lightRules m @ replicate k forceGreenRule) \<and>
      (\<exists>l. currentState M = Some (lightState m l)))"

definition wired :: "'n crossing \<Rightarrow> bool" where
  "wired w = (\<forall>m. wiredAs m (machines w m))"

definition bothGreen :: "'n crossing \<Rightarrow> bool" where
  "bothGreen w = (getCurrentState NS w = Inr ''GREEN'' \<and> getCurrentState EW w = Inr ''GREEN'')"

text \<open>
  \<open>apart\<close>: the two machines have different history arrays, as two
  \<^verbatim>\<open>new StateMachine()\<close> leave them. \<open>lightAccount ar this\<close> is the account of the
  closures of the controller for the machine \<open>this\<close>: the \<^verbatim>\<open>onUpdate\<close> of a light
  state of \<open>this\<close> makes it enter what its \<^verbatim>\<open>trigger('TIMER_EXPIRED')\<close> enters, on a
  tick on which it calls \<^verbatim>\<open>trigger\<close>; every other closure leaves \<open>this\<close> alone.
\<close>

definition apart :: "'n crossing \<Rightarrow> bool" where
  "apart w = (history (machines w NS) \<noteq> history (machines w EW))"

definition lightAccount :: "'n arithmetic \<Rightarrow> axis \<Rightarrow> (axis, closure, 'n controller, 'n) account" where
  "lightAccount ar this =
     \<lparr>enters = (\<lambda>c w. []),
      entersOnUpdate = (\<lambda>c deltaTime w. case c of
          LightUpdate m l \<Rightarrow>
            (let w1 = setTimer m l (addition ar (timer (env w) m l) deltaTime) w
             in if m = this \<and> greaterEq ar (timer (env w1) m l) (literal ar (duration l))
                then triggerEntries (innerRuntime ar) silent this ''TIMER_EXPIRED'' w1
                else [])
        | _ \<Rightarrow> []),
      entersInGuard = (\<lambda>c w. [])\<rparr>"

text \<open>The controller after \<^verbatim>\<open>new IntersectionController()\<close> and \<^verbatim>\<open>start()\<close>.\<close>

definition started :: "'n arithmetic \<Rightarrow> 'n crossing" where
  "started ar = snd (startController ar (snd (newIntersectionController ar)))"

subsection \<open>An arithmetic for concrete runs\<close>

text \<open>
  The integers of magnitude at most \<^verbatim>\<open>2^53\<close> are doubles, the double sum of two of
  them is their integer sum whenever that sum is of magnitude at most \<^verbatim>\<open>2^53\<close> too,
  and their comparison is that of the integers. \<open>Whole i\<close> stands for such a number;
  \<open>Beyond\<close> stands for any other double, and for what \<open>Whole\<close> would hold out of that
  range. \<open>wholeNumbers\<close> computes with the first kind and gives up on the second: a sum
  that leaves the range or has \<open>Beyond\<close> in it is \<open>Beyond\<close>, and a comparison with
  \<open>Beyond\<close> in it is answered false, which need not be the answer of the doubles. So a
  run in which every timer and every elapsed time stays \<open>Whole\<close> and in range is a run
  of the program on doubles; the runs below are of that kind, their numbers being whole
  milliseconds up to 35000.
\<close>

datatype number = Whole int | Beyond

definition inRange :: "int \<Rightarrow> bool" where
  "inRange i = (\<bar>i\<bar> \<le> 9007199254740992)"

fun wholeSum :: "number \<Rightarrow> number \<Rightarrow> number" where
  "wholeSum (Whole a) (Whole b) =
     (if inRange a \<and> inRange b \<and> inRange (a + b) then Whole (a + b) else Beyond)"
| "wholeSum a b = Beyond"

fun wholeGreaterEq :: "number \<Rightarrow> number \<Rightarrow> bool" where
  "wholeGreaterEq (Whole a) (Whole b) = (inRange a \<and> inRange b \<and> a \<ge> b)"
| "wholeGreaterEq a b = False"

definition wholeNumbers :: "number arithmetic" where
  "wholeNumbers =
     \<lparr>addition = wholeSum, greaterEq = wholeGreaterEq,
      literal = (\<lambda>i. if inRange i then Whole i else Beyond)\<rparr>"

text \<open>The started controller after one \<^verbatim>\<open>update(30000)\<close>.\<close>

definition redWaiting :: "number crossing" where
  "redWaiting = happenAll wholeNumbers [UpdateController (Whole 30000)] (started wholeNumbers)"

text \<open>
  The machine \<^verbatim>\<open>eastWest\<close> driven on its own: made after \<^verbatim>\<open>northSouth\<close>, set up as
  \<^verbatim>\<open>setupTrafficLights\<close> does, started in \<^verbatim>\<open>RED\<close> and updated three times, while
  \<^verbatim>\<open>northSouth\<close> is never started.
\<close>

definition twoMachines :: "number crossing" where
  "twoMachines =
     newStateMachine NS
       (emptyStore \<lparr>timer = (\<lambda>_ _. Whole 0), pedestrianWaiting = (\<lambda>_. False),
                    isRunning = False, timeouts = []\<rparr>)"

definition eastWestAlone :: "(closure, number) request list" where
  "eastWestAlone =
     [AddState (lightState EW Red), AddState (lightState EW Green), AddState (lightState EW Yellow)] @
     map AddTransition (lightRules EW) @
     [Start ''RED'', Update (Whole 30000), Update (Whole 25000), Update (Whole 5000)]"

section \<open>Properties of the engine\<close>

lemmas engine_defs = setMachine_def pushHistory_def callOpt_def newStateMachine_def
  addState_def addTransition_def start_def matchesEvent_def transitionTo_def trigger_def
  update_def getCurrentState_def getHistory_def canTransition_def unitReply_def boolReply_def

lemmas fixture_defs = emptyStore_def mark_def probeRuntime_def plainState_def plainRule_def
  script_def

subsection \<open>Registration errors\<close>

text \<open>
  Claim C6. \<^verbatim>\<open>addState\<close> with a name that is already registered throws the
  duplicate-state error and leaves the store, hence the registry, as it was.
  \<^verbatim>\<open>addTransition\<close> with a source that is neither the wildcard nor registered, or with
  an unregistered target, throws the unknown-state error and leaves the store, hence the
  transition table, as it was.
\<close>

theorem duplicate_and_unknown_rejected:
  "(states (machines w this) (name s) \<noteq> None \<longrightarrow>
      addState this s w = (Inl (DuplicateStateError (name s)), w)) \<and>
   (tr_from t \<noteq> ''*'' \<and> states (machines w this) (tr_from t) = None \<longrightarrow>
      addTransition this t w = (Inl (UnknownStateError InAddTransitionSource (tr_from t)), w)) \<and>
   ((tr_from t = ''*'' \<or> states (machines w this) (tr_from t) \<noteq> None) \<and>
      states (machines w this) (tr_to t) = None \<longrightarrow>
      addTransition this t w = (Inl (UnknownStateError InAddTransitionTarget (tr_to t)), w))"
  by (auto simp: addState_def addTransition_def Let_def)

theorem duplicate_and_unknown_rejected_witness:
  "addState 0 (plainState ''DUPLICATE'') (script [AddState (plainState ''DUPLICATE'')]) =
     (Inl (DuplicateStateError ''DUPLICATE''), script [AddState (plainState ''DUPLICATE'')]) \<and>
   addTransition 0 (plainRule ''NON_EXISTENT'' ''DUPLICATE'' ''GO'')
       (script [AddState (plainState ''DUPLICATE'')]) =
     (Inl (UnknownStateError InAddTransitionSource ''NON_EXISTENT''),
      script [AddState (plainState ''DUPLICATE'')]) \<and>
   addTransition 0 (plainRule ''*'' ''NON_EXISTENT'' ''GO'')
       (script [AddState (plainState ''DUPLICATE'')]) =
     (Inl (UnknownStateError InAddTransitionTarget ''NON_EXISTENT''),
      script [AddState (plainState ''DUPLICATE'')])"
proof -
  let ?w = "script [AddState (plainState ''DUPLICATE'')]"
  have reg: "states (machines ?w 0) ''DUPLICATE'' \<noteq> None"
    and unreg: "states (machines ?w 0) ''NON_EXISTENT'' = None"
    by (simp_all add: engine_defs fixture_defs)
  show ?thesis
    using duplicate_and_unknown_rejected
            [of ?w 0 "plainState ''DUPLICATE''" "plainRule ''NON_EXISTENT'' ''DUPLICATE'' ''GO''"]
          duplicate_and_unknown_rejected
            [of ?w 0 "plainState ''DUPLICATE''" "plainRule ''*'' ''NON_EXISTENT'' ''GO''"]
          reg unreg
    by (simp add: plainState_def plainRule_def)
qed

subsection \<open>Before start\<close>

lemma invoke_keeps_unstarted:
  "currentState (machines w this) = None \<Longrightarrow> \<forall>n. r \<noteq> Start n \<Longrightarrow>
   currentState (machines (snd (invoke rt this r w)) this) = None"
  by (cases r) (auto simp: engine_defs Let_def)

lemma run_keeps_unstarted:
  "currentState (machines w this) = None \<Longrightarrow> \<forall>r\<in>set rs. \<forall>n. r \<noteq> Start n \<Longrightarrow>
   currentState (machines (run rt this rs w) this) = None"
  by (induction rs arbitrary: w) (simp_all add: invoke_keeps_unstarted)

text \<open>
  Claim C7. On a machine made by \<^verbatim>\<open>new StateMachine()\<close> on which any calls but
  \<^verbatim>\<open>start\<close> have been made, the methods \<^verbatim>\<open>trigger\<close>, \<^verbatim>\<open>getCurrentState\<close> and
  \<^verbatim>\<open>update\<close> throw the not-started error, and \<^verbatim>\<open>canTransition\<close> returns false
  without throwing; none of them changes the store.
\<close>

theorem unstarted_machine:
  assumes "\<forall>r\<in>set rs. \<forall>n. r \<noteq> Start n"
      and "w = run rt this rs (newStateMachine this w0)"
  shows "trigger rt this ev w = (Inl NotStartedError, w) \<and>
         getCurrentState this w = Inl NotStartedError \<and>
         update rt this d w = (Inl NotStartedError, w) \<and>
         canTransition rt this ev w = (Inr False, w)"
proof -
  have "currentState (machines (newStateMachine this w0) this) = None"
    by (simp add: newStateMachine_def)
  then have "currentState (machines w this) = None"
    unfolding assms(2) using assms(1) by (rule run_keeps_unstarted)
  then show ?thesis
    by (simp add: trigger_def getCurrentState_def update_def canTransition_def)
qed

theorem unstarted_machine_witness:
  "trigger probeRuntime 0 ''GO''
       (script [AddState (plainState ''A''), AddState (plainState ''B''),
                AddTransition (plainRule ''A'' ''B'' ''GO'')]) =
     (Inl NotStartedError,
      script [AddState (plainState ''A''), AddState (plainState ''B''),
              AddTransition (plainRule ''A'' ''B'' ''GO'')]) \<and>
   getCurrentState 0
       (script [AddState (plainState ''A''), AddState (plainState ''B''),
                AddTransition (plainRule ''A'' ''B'' ''GO'')]) = Inl NotStartedError \<and>
   update probeRuntime 0 16
       (script [AddState (plainState ''A''), AddState (plainState ''B''),
                AddTransition (plainRule ''A'' ''B'' ''GO'')]) =
     (Inl NotStartedError,
      script [AddState (plainState ''A''), AddState (plainState ''B''),
              AddTransition (plainRule ''A'' ''B'' ''GO'')]) \<and>
   canTransition probeRuntime 0 ''GO''
       (script [AddState (plainState ''A''), AddState (plainState ''B''),
                AddTransition (plainRule ''A'' ''B'' ''GO'')]) =
     (Inr False,
      script [AddState (plainState ''A''), AddState (plainState ''B''),
              AddTransition (plainRule ''A'' ''B'' ''GO'')])"
  using unstarted_machine
          [where rs = "[AddState (plainState ''A''), AddState (plainState ''B''),
                        AddTransition (plainRule ''A'' ''B'' ''GO'')]"
             and rt = probeRuntime and this = 0 and ?w0.0 = "emptyStore []" and ev = "''GO''"
             and d = 16, OF _ refl]
  by (simp add: script_def)

subsection \<open>start\<close>

text \<open>
  Claim C8. \<^verbatim>\<open>start(n)\<close> throws the unknown-state error when \<open>n\<close> is not registered
  (this check comes first), and the already-started error when \<open>n\<close> is registered and a
  current state exists; both leave the store as it was. Otherwise it makes the state
  registered under \<open>n\<close> current, appends \<open>n\<close> to the history, and only then calls the
  state's \<^verbatim>\<open>onEnter\<close>, if it has one: the call sees the store \<open>w1\<close> with the new current
  state and history, and an error it throws is the result of \<^verbatim>\<open>start\<close>.
\<close>

theorem start_contract:
  "(states (machines w this) n = None \<longrightarrow>
      start rt this n w = (Inl (UnknownStateError InStart n), w)) \<and>
   (states (machines w this) n \<noteq> None \<and> currentState (machines w this) \<noteq> None \<longrightarrow>
      start rt this n w = (Inl AlreadyStartedError, w)) \<and>
   (\<forall>s. states (machines w this) n = Some s \<and> currentState (machines w this) = None \<longrightarrow>
      (let w1 = pushHistory this n (setMachine this ((machines w this)\<lparr>currentState := Some s\<rparr>) w)
       in currentState (machines w1 this) = Some s \<and>
          arrays w1 (history (machines w this)) = arrays w (history (machines w this)) @ [n] \<and>
          start rt this n w =
            (case callOpt rt (onEnter s) w1 of
               (Some e, w2) \<Rightarrow> (Inl e, w2)
             | (None, w2) \<Rightarrow> (Inr (), w2))))"
  by (auto simp: start_def Let_def pushHistory_def setMachine_def split: option.splits prod.splits)

theorem start_contract_witness:
  "start probeRuntime 0 ''NON_EXISTENT'' (script []) =
     (Inl (UnknownStateError InStart ''NON_EXISTENT''), script []) \<and>
   start probeRuntime 0 ''INITIAL'' (script [AddState (plainState ''INITIAL''), Start ''INITIAL'']) =
     (Inl AlreadyStartedError, script [AddState (plainState ''INITIAL''), Start ''INITIAL'']) \<and>
   fst (start probeRuntime 0 ''A'' (script (butlast lifecycle))) = Inr () \<and>
   env (snd (start probeRuntime 0 ''A'' (script (butlast lifecycle)))) = [(''A-enter'', Inr ''A'')] \<and>
   historyCopy 0 (snd (start probeRuntime 0 ''A'' (script (butlast lifecycle)))) = [''A''] \<and>
   fst (start throwingRuntime 0 ''A'' faultyMachine) = Inl (ApplicationError ''enter failed'') \<and>
   getCurrentState 0 (snd (start throwingRuntime 0 ''A'' faultyMachine)) = Inr ''A'' \<and>
   historyCopy 0 (snd (start throwingRuntime 0 ''A'' faultyMachine)) = [''A'']"
proof -
  let ?A = "\<lparr>name = ''A'', onEnter = Some (Push ''A-enter''), onExit = Some (Push ''A-exit''),
             onUpdate = None\<rparr>"
  have a: "states (machines (script []) 0) ''NON_EXISTENT'' = None"
    and b: "states (machines (script [AddState (plainState ''INITIAL''), Start ''INITIAL'']) 0)
              ''INITIAL'' \<noteq> None \<and>
            currentState (machines (script [AddState (plainState ''INITIAL''), Start ''INITIAL'']) 0)
              \<noteq> None"
    and c: "states (machines (script (butlast lifecycle)) 0) ''A'' = Some ?A \<and>
            currentState (machines (script (butlast lifecycle)) 0) = None"
    and d: "states (machines faultyMachine 0) ''A'' = Some faulty \<and>
            currentState (machines faultyMachine 0) = None"
    by (simp_all add: lifecycle_def faulty_def faultyMachine_def throwingRuntime_def
                      engine_defs fixture_defs)
  note u = start_contract[where rt = probeRuntime and this = 0 and n = "''NON_EXISTENT''"
      and w = "script []", THEN conjunct1, rule_format, OF a]
  note v = start_contract[where rt = probeRuntime and this = 0 and n = "''INITIAL''"
      and w = "script [AddState (plainState ''INITIAL''), Start ''INITIAL'']",
      THEN conjunct2, THEN conjunct1, rule_format, OF b]
  note x = start_contract[where rt = probeRuntime and this = 0 and n = "''A''"
      and w = "script (butlast lifecycle)", THEN conjunct2, THEN conjunct2, rule_format, OF c]
  note y = start_contract[where rt = throwingRuntime and this = 0 and n = "''A''"
      and w = faultyMachine, THEN conjunct2, THEN conjunct2, rule_format, OF d]
  show ?thesis
    using u v x y
    by (simp add: lifecycle_def faulty_def faultyMachine_def throwingRuntime_def
                  engine_defs fixture_defs historyCopy_def)
qed

subsection \<open>The scan of the table by trigger\<close>

lemma findTransition_append:
  "findTransition rt cur ev (xs @ ys) w =
     (case findTransition rt cur ev xs w of
        (Inr None, w') \<Rightarrow> findTransition rt cur ev ys w'
      | r \<Rightarrow> r)"
  by (induction xs arbitrary: w) (auto split: option.splits prod.splits sum.splits)

lemma findTransition_fails:
  "fails rt cur ev t w \<Longrightarrow>
   findTransition rt cur ev (t # ts) w = findTransition rt cur ev ts (afterGuard rt cur ev t w)"
  by (cases "evalGuard rt (the (tr_guard t)) w")
     (auto simp: fails_def afterGuard_def matchesEvent_def split: option.splits if_splits)

lemma findTransition_passes:
  "passes rt cur ev t w \<Longrightarrow>
   findTransition rt cur ev (t # ts) w = (Inr (Some t), afterGuard rt cur ev t w)"
  by (cases "evalGuard rt (the (tr_guard t)) w")
     (auto simp: passes_def afterGuard_def matchesEvent_def split: option.splits)

lemma findTransition_first:
  "i < length ts \<Longrightarrow>
   passes rt cur ev (ts ! i) (guardWorld rt cur ev (take i ts) w) \<Longrightarrow>
   \<forall>j<i. fails rt cur ev (ts ! j) (guardWorld rt cur ev (take j ts) w) \<Longrightarrow>
   findTransition rt cur ev ts w = (Inr (Some (ts ! i)), guardWorld rt cur ev (take (Suc i) ts) w)"
proof (induction ts arbitrary: i w)
  case Nil
  then show ?case by simp
next
  case (Cons t ts)
  show ?case
  proof (cases i)
    case 0
    with Cons.prems(2) have "passes rt cur ev t w" by simp
    from findTransition_passes[OF this] 0 show ?thesis
      by (simp del: findTransition.simps)
  next
    case (Suc k)
    from Cons.prems(3) Suc have "fails rt cur ev t w" by fastforce
    then have step: "findTransition rt cur ev (t # ts) w =
        findTransition rt cur ev ts (afterGuard rt cur ev t w)"
      by (rule findTransition_fails)
    have k: "k < length ts" using Cons.prems(1) Suc by simp
    have p: "passes rt cur ev (ts ! k) (guardWorld rt cur ev (take k ts) (afterGuard rt cur ev t w))"
      using Cons.prems(2) Suc by simp
    have f: "\<forall>j<k. fails rt cur ev (ts ! j) (guardWorld rt cur ev (take j ts) (afterGuard rt cur ev t w))"
    proof (intro allI impI)
      fix j assume "j < k"
      then have "Suc j < i" using Suc by simp
      with Cons.prems(3) have "fails rt cur ev ((t # ts) ! Suc j) (guardWorld rt cur ev (take (Suc j) (t # ts)) w)"
        by blast
      then show "fails rt cur ev (ts ! j) (guardWorld rt cur ev (take j ts) (afterGuard rt cur ev t w))"
        by simp
    qed
    from Cons.IH[OF k p f] step Suc show ?thesis
      by (simp del: findTransition.simps)
  qed
qed

lemma findTransition_none:
  "\<forall>j<length ts. fails rt cur ev (ts ! j) (guardWorld rt cur ev (take j ts) w) \<Longrightarrow>
   findTransition rt cur ev ts w = (Inr None, guardWorld rt cur ev ts w)"
proof (induction ts arbitrary: w)
  case Nil
  then show ?case by simp
next
  case (Cons t ts)
  from Cons.prems have "fails rt cur ev t w" by fastforce
  then have step: "findTransition rt cur ev (t # ts) w =
      findTransition rt cur ev ts (afterGuard rt cur ev t w)"
    by (rule findTransition_fails)
  have "\<forall>j<length ts. fails rt cur ev (ts ! j) (guardWorld rt cur ev (take j ts) (afterGuard rt cur ev t w))"
  proof (intro allI impI)
    fix j assume "j < length ts"
    then have "Suc j < length (t # ts)" by simp
    with Cons.prems have "fails rt cur ev ((t # ts) ! Suc j) (guardWorld rt cur ev (take (Suc j) (t # ts)) w)"
      by blast
    then show "fails rt cur ev (ts ! j) (guardWorld rt cur ev (take j ts) (afterGuard rt cur ev t w))"
      by simp
  qed
  from Cons.IH[OF this] step show ?case
    by (simp del: findTransition.simps)
qed

lemmas scan_defs = passes_def fails_def afterGuard_def triggered_def

text \<open>
  Claim C1. On a started machine, \<^verbatim>\<open>trigger(ev)\<close> selects the first rule, in the order of
  registration, that passes: its source is the name of the current state or the
  wildcard, its event is \<open>ev\<close>, and its guard is absent or returns true. If rule \<open>i\<close>
  passes and every rule before it fails, \<^verbatim>\<open>trigger\<close> carries out the transition of rule
  \<open>i\<close>; the position alone decides, whether the source is exact or the wildcard. If
  every rule fails, \<^verbatim>\<open>trigger\<close> returns false. Each rule is judged in the store the
  guards before it left behind.
\<close>

theorem trigger_first_match:
  assumes "currentState (machines w this) = Some cs"
      and "ts = transitions (machines w this)"
  shows "(\<forall>i<length ts.
            passes rt (name cs) ev (ts ! i) (guardWorld rt (name cs) ev (take i ts) w) \<and>
            (\<forall>j<i. fails rt (name cs) ev (ts ! j) (guardWorld rt (name cs) ev (take j ts) w)) \<longrightarrow>
            trigger rt this ev w =
              triggered (transitionTo rt this (tr_to (ts ! i)) (tr_action (ts ! i))
                           (guardWorld rt (name cs) ev (take (Suc i) ts) w))) \<and>
         ((\<forall>j<length ts. fails rt (name cs) ev (ts ! j) (guardWorld rt (name cs) ev (take j ts) w)) \<longrightarrow>
            trigger rt this ev w = (Inr False, guardWorld rt (name cs) ev ts w))"
proof (intro conjI allI impI)
  fix i
  assume i: "i < length ts"
    and sel: "passes rt (name cs) ev (ts ! i) (guardWorld rt (name cs) ev (take i ts) w) \<and>
         (\<forall>j<i. fails rt (name cs) ev (ts ! j) (guardWorld rt (name cs) ev (take j ts) w))"
  have "findTransition rt (name cs) ev ts w =
          (Inr (Some (ts ! i)), guardWorld rt (name cs) ev (take (Suc i) ts) w)"
    using i sel by (intro findTransition_first) auto
  then show "trigger rt this ev w =
      triggered (transitionTo rt this (tr_to (ts ! i)) (tr_action (ts ! i))
                   (guardWorld rt (name cs) ev (take (Suc i) ts) w))"
    using assms by (simp add: trigger_def triggered_def split: prod.splits sum.splits)
next
  assume "\<forall>j<length ts. fails rt (name cs) ev (ts ! j) (guardWorld rt (name cs) ev (take j ts) w)"
  then have "findTransition rt (name cs) ev ts w = (Inr None, guardWorld rt (name cs) ev ts w)"
    by (rule findTransition_none)
  then show "trigger rt this ev w = (Inr False, guardWorld rt (name cs) ev ts w)"
    using assms by (simp add: trigger_def)
qed

theorem trigger_first_match_witness:
  "fst (trigger probeRuntime 0 ''GO''
         (script [AddState (plainState ''A''), AddState (plainState ''B''),
                  AddState (plainState ''C''), AddTransition (plainRule ''*'' ''C'' ''GO''),
                  AddTransition (plainRule ''A'' ''B'' ''GO''), Start ''A''])) = Inr True \<and>
   getCurrentState 0 (snd (trigger probeRuntime 0 ''GO''
         (script [AddState (plainState ''A''), AddState (plainState ''B''),
                  AddState (plainState ''C''), AddTransition (plainRule ''*'' ''C'' ''GO''),
                  AddTransition (plainRule ''A'' ''B'' ''GO''), Start ''A'']))) = Inr ''C'' \<and>
   getCurrentState 0 (snd (trigger probeRuntime 0 ''GO''
         (script [AddState (plainState ''A''), AddState (plainState ''B''),
                  AddState (plainState ''C''), AddTransition (plainRule ''A'' ''B'' ''GO''),
                  AddTransition (plainRule ''*'' ''C'' ''GO''), Start ''A'']))) = Inr ''B'' \<and>
   trigger probeRuntime 0 ''INVALID_EVENT''
         (script [AddState (plainState ''A''), AddState (plainState ''B''),
                  AddState (plainState ''C''), AddTransition (plainRule ''*'' ''C'' ''GO''),
                  AddTransition (plainRule ''A'' ''B'' ''GO''), Start ''A'']) =
     (Inr False,
      script [AddState (plainState ''A''), AddState (plainState ''B''),
              AddState (plainState ''C''), AddTransition (plainRule ''*'' ''C'' ''GO''),
              AddTransition (plainRule ''A'' ''B'' ''GO''), Start ''A''])"
proof -
  let ?w = "script [AddState (plainState ''A''), AddState (plainState ''B''),
                    AddState (plainState ''C''), AddTransition (plainRule ''*'' ''C'' ''GO''),
                    AddTransition (plainRule ''A'' ''B'' ''GO''), Start ''A'']"
  let ?v = "script [AddState (plainState ''A''), AddState (plainState ''B''),
                    AddState (plainState ''C''), AddTransition (plainRule ''A'' ''B'' ''GO''),
                    AddTransition (plainRule ''*'' ''C'' ''GO''), Start ''A'']"
  have cw: "currentState (machines ?w 0) = Some (plainState ''A'')"
    and tw: "[plainRule ''*'' ''C'' ''GO'', plainRule ''A'' ''B'' ''GO''] = transitions (machines ?w 0)"
    and cv: "currentState (machines ?v 0) = Some (plainState ''A'')"
    and tv: "[plainRule ''A'' ''B'' ''GO'', plainRule ''*'' ''C'' ''GO''] = transitions (machines ?v 0)"
    by (simp_all add: engine_defs fixture_defs)
  have a: "trigger probeRuntime 0 ''GO'' ?w =
      triggered (transitionTo probeRuntime 0 ''C'' None ?w)"
    using trigger_first_match[OF cw tw, of probeRuntime "''GO''", THEN conjunct1, rule_format, of 0]
    by (simp add: scan_defs plainRule_def plainState_def)
  have b: "trigger probeRuntime 0 ''GO'' ?v =
      triggered (transitionTo probeRuntime 0 ''B'' None ?v)"
    using trigger_first_match[OF cv tv, of probeRuntime "''GO''", THEN conjunct1, rule_format, of 0]
    by (simp add: scan_defs plainRule_def plainState_def)
  have c: "trigger probeRuntime 0 ''INVALID_EVENT'' ?w = (Inr False, ?w)"
    using trigger_first_match[OF cw tw, of probeRuntime "''INVALID_EVENT''", THEN conjunct2]
    by (simp add: scan_defs plainRule_def plainState_def less_Suc_eq)
  show ?thesis
    unfolding a b c by (simp add: engine_defs fixture_defs triggered_def)
qed

subsection \<open>The order of a transition\<close>

lemma entering_store:
  "currentState (machines (pushHistory this n (setMachine this ((machines w this)\<lparr>currentState := Some s\<rparr>) w)) this) = Some s \<and>
   arrays (pushHistory this n (setMachine this ((machines w this)\<lparr>currentState := Some s\<rparr>) w))
       (history (machines w this)) = arrays w (history (machines w this)) @ [n]"
  by (simp add: pushHistory_def setMachine_def)

text \<open>
  Claim C2. When \<^verbatim>\<open>trigger\<close> has found a rule \<open>t\<close> (the scan ending in the store
  \<open>w0\<close>), it calls \<^verbatim>\<open>onExit\<close> of the departing state, if present; then the action of
  \<open>t\<close>, if present, in the store \<^verbatim>\<open>onExit\<close> left; then it makes the target current and
  appends its name to the history; then it calls \<^verbatim>\<open>onEnter\<close> of the new state, if
  present, in that store. An error thrown by a callback ends the transition at that point.
\<close>

theorem transition_order:
  assumes "currentState (machines w this) = Some cs"
      and "findTransition rt (name cs) ev (transitions (machines w this)) w = (Inr (Some t), w0)"
      and "currentState (machines w0 this) = Some ds"
      and "states (machines w0 this) (tr_to t) = Some ns"
  shows "trigger rt this ev w =
     (case callOpt rt (onExit ds) w0 of
        (Some e, w1) \<Rightarrow> (Inl e, w1)
      | (None, w1) \<Rightarrow>
          (case callOpt rt (tr_action t) w1 of
             (Some e, w2) \<Rightarrow> (Inl e, w2)
           | (None, w2) \<Rightarrow>
               (case callOpt rt (onEnter ns)
                       (pushHistory this (tr_to t)
                          (setMachine this ((machines w2 this)\<lparr>currentState := Some ns\<rparr>) w2)) of
                  (Some e, w3) \<Rightarrow> (Inl e, w3)
                | (None, w3) \<Rightarrow> (Inr True, w3)))) \<and>
     (\<forall>w2. currentState (machines (pushHistory this (tr_to t)
                    (setMachine this ((machines w2 this)\<lparr>currentState := Some ns\<rparr>) w2)) this) =
             Some ns \<and>
           arrays (pushHistory this (tr_to t)
                    (setMachine this ((machines w2 this)\<lparr>currentState := Some ns\<rparr>) w2))
               (history (machines w2 this)) =
             arrays w2 (history (machines w2 this)) @ [tr_to t])"
proof (rule conjI)
  show "trigger rt this ev w =
     (case callOpt rt (onExit ds) w0 of
        (Some e, w1) \<Rightarrow> (Inl e, w1)
      | (None, w1) \<Rightarrow>
          (case callOpt rt (tr_action t) w1 of
             (Some e, w2) \<Rightarrow> (Inl e, w2)
           | (None, w2) \<Rightarrow>
               (case callOpt rt (onEnter ns)
                       (pushHistory this (tr_to t)
                          (setMachine this ((machines w2 this)\<lparr>currentState := Some ns\<rparr>) w2)) of
                  (Some e, w3) \<Rightarrow> (Inl e, w3)
                | (None, w3) \<Rightarrow> (Inr True, w3))))"
    using assms
    by (simp add: trigger_def transitionTo_def Let_def
             split: prod.splits option.splits sum.splits)
qed (simp add: entering_store)

theorem transition_order_witness:
  "fst (trigger probeRuntime 0 ''GO'' (script lifecycle)) = Inr True \<and>
   env (script lifecycle) = [(''A-enter'', Inr ''A'')] \<and>
   env (snd (trigger probeRuntime 0 ''GO'' (script lifecycle))) =
     [(''A-enter'', Inr ''A''), (''A-exit'', Inr ''A''), (''action'', Inr ''A''),
      (''B-enter'', Inr ''B'')] \<and>
   historyCopy 0 (snd (trigger probeRuntime 0 ''GO'' (script lifecycle))) = [''A'', ''B'']"
proof -
  let ?A = "\<lparr>name = ''A'', onEnter = Some (Push ''A-enter''), onExit = Some (Push ''A-exit''),
             onUpdate = None\<rparr>"
  let ?B = "\<lparr>name = ''B'', onEnter = Some (Push ''B-enter''), onExit = None, onUpdate = None\<rparr>"
  let ?t = "\<lparr>tr_from = ''A'', tr_to = ''B'', tr_event = ''GO'', tr_guard = None,
             tr_action = Some (Push ''action'')\<rparr>"
  have 1: "currentState (machines (script lifecycle) 0) = Some ?A"
    and 2: "findTransition probeRuntime (name ?A) ''GO''
              (transitions (machines (script lifecycle) 0)) (script lifecycle) =
            (Inr (Some ?t), script lifecycle)"
    and 3: "states (machines (script lifecycle) 0) (tr_to ?t) = Some ?B"
    by (simp_all add: lifecycle_def engine_defs fixture_defs)
  show ?thesis
    unfolding transition_order[OF 1 2 1 3, THEN conjunct1]
    by (simp add: lifecycle_def engine_defs fixture_defs historyCopy_def)
qed

subsection \<open>A failed guard does not end the scan\<close>

text \<open>
  Claim C3, as stated, fails: with a rule from the current state whose guard returns
  false registered before a wildcard rule for the same event whose guard returns true,
  \<^verbatim>\<open>trigger\<close> runs the guard of the wildcard rule as well and moves to its target.
\<close>

theorem wildcard_tried_after_failed_exact:
  "transitions (machines (script shadowed) 0) =
     [\<lparr>tr_from = ''A'', tr_to = ''B'', tr_event = ''GO'',
       tr_guard = Some (PushAnswer ''exact guard'' False), tr_action = None\<rparr>,
      \<lparr>tr_from = ''*'', tr_to = ''C'', tr_event = ''GO'',
       tr_guard = Some (PushAnswer ''wildcard guard'' True), tr_action = None\<rparr>] \<and>
   getCurrentState 0 (script shadowed) = Inr ''A'' \<and>
   fst (trigger probeRuntime 0 ''GO'' (script shadowed)) = Inr True \<and>
   getCurrentState 0 (snd (trigger probeRuntime 0 ''GO'' (script shadowed))) = Inr ''C'' \<and>
   env (snd (trigger probeRuntime 0 ''GO'' (script shadowed))) =
     [(''exact guard'', Inr ''A''), (''wildcard guard'', Inr ''A'')]"
  by (simp add: shadowed_def engine_defs fixture_defs)

lemma passes_not_fails: "passes rt cur ev t w \<Longrightarrow> \<not> fails rt cur ev t w"
  by (auto simp: passes_def fails_def split: option.splits)

text \<open>
  Claim C3, amended. Take a table in which a rule from the current state whose guard
  returns false is registered before a wildcard rule for the same event that passes. The
  failed guard does not end the scan. When every other rule before the wildcard rule
  fails, \<^verbatim>\<open>trigger\<close> runs the guard of the wildcard rule, selects that rule and carries
  out its transition. In general, when no guard before the wildcard rule throws,
  \<^verbatim>\<open>trigger\<close> selects the first rule that passes and carries out its transition: a
  rule other than the exact one, at or before the wildcard rule. So the wildcard rule is
  left untried only when a rule registered before it passes.
\<close>

theorem failed_exact_guard_falls_through:
  assumes "currentState (machines w this) = Some cs"
      and "ts = transitions (machines w this)"
      and "i < k" and "k < length ts"
      and "tr_from (ts ! i) = name cs" and "tr_event (ts ! i) = ev"
      and "tr_guard (ts ! i) = Some g"
      and "fst (evalGuard rt g (guardWorld rt (name cs) ev (take i ts) w)) = Inr False"
      and "tr_from (ts ! k) = ''*''"
      and "passes rt (name cs) ev (ts ! k) (guardWorld rt (name cs) ev (take k ts) w)"
  shows "((\<forall>j<k. j \<noteq> i \<longrightarrow> fails rt (name cs) ev (ts ! j) (guardWorld rt (name cs) ev (take j ts) w)) \<longrightarrow>
            trigger rt this ev w =
              triggered (transitionTo rt this (tr_to (ts ! k)) (tr_action (ts ! k))
                           (guardWorld rt (name cs) ev (take (Suc k) ts) w))) \<and>
         ((\<forall>j<k. passes rt (name cs) ev (ts ! j) (guardWorld rt (name cs) ev (take j ts) w) \<or>
                  fails rt (name cs) ev (ts ! j) (guardWorld rt (name cs) ev (take j ts) w)) \<longrightarrow>
            (\<exists>j\<le>k. j \<noteq> i \<and>
               passes rt (name cs) ev (ts ! j) (guardWorld rt (name cs) ev (take j ts) w) \<and>
               (\<forall>h<j. fails rt (name cs) ev (ts ! h) (guardWorld rt (name cs) ev (take h ts) w)) \<and>
               trigger rt this ev w =
                 triggered (transitionTo rt this (tr_to (ts ! j)) (tr_action (ts ! j))
                              (guardWorld rt (name cs) ev (take (Suc j) ts) w))))"
proof (intro conjI impI)
  let ?P = "\<lambda>j. passes rt (name cs) ev (ts ! j) (guardWorld rt (name cs) ev (take j ts) w)"
  let ?F = "\<lambda>j. fails rt (name cs) ev (ts ! j) (guardWorld rt (name cs) ev (take j ts) w)"
  have fi: "?F i"
    using assms(5-8) by (simp add: fails_def)
  have sel: "trigger rt this ev w =
        triggered (transitionTo rt this (tr_to (ts ! j)) (tr_action (ts ! j))
                     (guardWorld rt (name cs) ev (take (Suc j) ts) w))"
    if "j < length ts" and "?P j" and "\<forall>h<j. ?F h" for j
  proof -
    from that have "findTransition rt (name cs) ev ts w =
        (Inr (Some (ts ! j)), guardWorld rt (name cs) ev (take (Suc j) ts) w)"
      by (intro findTransition_first)
    then show ?thesis
      using assms(1,2) by (simp add: trigger_def triggered_def split: prod.splits sum.splits)
  qed
  {
    assume "\<forall>j<k. j \<noteq> i \<longrightarrow> ?F j"
    with fi have "\<forall>j<k. ?F j" by metis
    with assms(4,10) show "trigger rt this ev w =
        triggered (transitionTo rt this (tr_to (ts ! k)) (tr_action (ts ! k))
                     (guardWorld rt (name cs) ev (take (Suc k) ts) w))"
      by (intro sel)
  }
  {
    assume dec: "\<forall>j<k. ?P j \<or> ?F j"
    define j where "j = (LEAST j. ?P j)"
    have pj: "?P j" unfolding j_def using assms(10) by (rule LeastI)
    have jk: "j \<le> k" unfolding j_def using assms(10) by (rule Least_le)
    have np: "\<not> ?P h" if "h < j" for h
      using that unfolding j_def by (rule not_less_Least)
    have fh: "\<forall>h<j. ?F h"
    proof (intro allI impI)
      fix h assume "h < j"
      with jk have "h < k" by simp
      with dec have "?P h \<or> ?F h" by blast
      with np[OF \<open>h < j\<close>] show "?F h" by blast
    qed
    have ji: "j \<noteq> i"
      using pj fi passes_not_fails by blast
    have "j < length ts" using jk assms(4) by simp
    from sel[OF this pj fh] pj fh ji jk
    show "\<exists>j\<le>k. j \<noteq> i \<and> ?P j \<and> (\<forall>h<j. ?F h) \<and>
               trigger rt this ev w =
                 triggered (transitionTo rt this (tr_to (ts ! j)) (tr_action (ts ! j))
                              (guardWorld rt (name cs) ev (take (Suc j) ts) w))"
      by blast
  }
qed

theorem failed_exact_guard_falls_through_witness:
  "trigger probeRuntime 0 ''GO'' (script shadowed) =
     triggered (transitionTo probeRuntime 0 ''C'' None
        (mark ''wildcard guard'' (mark ''exact guard'' (script shadowed)))) \<and>
   getCurrentState 0 (snd (trigger probeRuntime 0 ''GO'' (script shadowed))) = Inr ''C'' \<and>
   trigger probeRuntime 0 ''GO'' (script bypassed) =
     triggered (transitionTo probeRuntime 0 ''D'' None (mark ''exact guard'' (script bypassed))) \<and>
   getCurrentState 0 (snd (trigger probeRuntime 0 ''GO'' (script bypassed))) = Inr ''D'' \<and>
   env (snd (trigger probeRuntime 0 ''GO'' (script bypassed))) = [(''exact guard'', Inr ''A'')]"
proof -
  let ?ts = "[\<lparr>tr_from = ''A'', tr_to = ''B'', tr_event = ''GO'',
               tr_guard = Some (PushAnswer ''exact guard'' False), tr_action = None\<rparr>,
              \<lparr>tr_from = ''*'', tr_to = ''C'', tr_event = ''GO'',
               tr_guard = Some (PushAnswer ''wildcard guard'' True), tr_action = None\<rparr>]"
  let ?us = "[\<lparr>tr_from = ''A'', tr_to = ''B'', tr_event = ''GO'',
               tr_guard = Some (PushAnswer ''exact guard'' False), tr_action = None\<rparr>,
              plainRule ''A'' ''D'' ''GO'',
              \<lparr>tr_from = ''*'', tr_to = ''C'', tr_event = ''GO'',
               tr_guard = Some (PushAnswer ''wildcard guard'' True), tr_action = None\<rparr>]"
  have c: "currentState (machines (script shadowed) 0) = Some (plainState ''A'')"
    and t: "?ts = transitions (machines (script shadowed) 0)"
    by (simp_all add: shadowed_def engine_defs fixture_defs)
  have "trigger probeRuntime 0 ''GO'' (script shadowed) =
      triggered (transitionTo probeRuntime 0 (tr_to (?ts ! 1)) (tr_action (?ts ! 1))
         (guardWorld probeRuntime (name (plainState ''A'')) ''GO'' (take (Suc 1) ?ts) (script shadowed)))"
    by (rule failed_exact_guard_falls_through[OF c t, where i = 0 and k = 1
          and g = "PushAnswer ''exact guard'' False", THEN conjunct1, rule_format])
       (simp_all add: scan_defs matchesEvent_def plainState_def probeRuntime_def)
  then have a: "trigger probeRuntime 0 ''GO'' (script shadowed) =
     triggered (transitionTo probeRuntime 0 ''C'' None
        (mark ''wildcard guard'' (mark ''exact guard'' (script shadowed))))"
    by (simp add: scan_defs matchesEvent_def plainState_def probeRuntime_def)
  have d: "currentState (machines (script bypassed) 0) = Some (plainState ''A'')"
    and u: "?us = transitions (machines (script bypassed) 0)"
    by (simp_all add: bypassed_def engine_defs fixture_defs)
  let ?P = "\<lambda>j. passes probeRuntime (name (plainState ''A'')) ''GO'' (?us ! j)
                   (guardWorld probeRuntime (name (plainState ''A'')) ''GO'' (take j ?us) (script bypassed))"
  let ?F = "\<lambda>j. fails probeRuntime (name (plainState ''A'')) ''GO'' (?us ! j)
                   (guardWorld probeRuntime (name (plainState ''A'')) ''GO'' (take j ?us) (script bypassed))"
  have p1: "?P 1" and f0: "?F 0"
    by (simp_all add: scan_defs matchesEvent_def plainState_def plainRule_def probeRuntime_def)
  have dec: "\<forall>j<2. ?P j \<or> ?F j"
    using p1 f0 by (auto simp: less_Suc_eq numeral_2_eq_2)
  have pr: "(0::nat) < 2" "2 < length ?us"
      "tr_from (?us ! 0) = name (plainState ''A'')" "tr_event (?us ! 0) = ''GO''"
      "tr_guard (?us ! 0) = Some (PushAnswer ''exact guard'' False)"
      "fst (evalGuard probeRuntime (PushAnswer ''exact guard'' False)
             (guardWorld probeRuntime (name (plainState ''A'')) ''GO'' (take 0 ?us) (script bypassed))) =
         Inr False"
      "tr_from (?us ! 2) = ''*''" "?P 2"
    by (simp_all add: scan_defs matchesEvent_def plainState_def plainRule_def probeRuntime_def)
  have "\<exists>j\<le>2. j \<noteq> 0 \<and> ?P j \<and> (\<forall>h<j. ?F h) \<and>
          trigger probeRuntime 0 ''GO'' (script bypassed) =
            triggered (transitionTo probeRuntime 0 (tr_to (?us ! j)) (tr_action (?us ! j))
               (guardWorld probeRuntime (name (plainState ''A'')) ''GO'' (take (Suc j) ?us) (script bypassed)))"
    by (rule failed_exact_guard_falls_through[OF d u pr, THEN conjunct2, THEN mp, OF dec])
  then obtain j where j: "j \<le> 2" "j \<noteq> 0" "\<forall>h<j. ?F h"
    and tr: "trigger probeRuntime 0 ''GO'' (script bypassed) =
            triggered (transitionTo probeRuntime 0 (tr_to (?us ! j)) (tr_action (?us ! j))
               (guardWorld probeRuntime (name (plainState ''A'')) ''GO'' (take (Suc j) ?us) (script bypassed)))"
    by blast
  have "j = 1"
  proof (rule ccontr)
    assume "j \<noteq> 1"
    with j(1,2) have "1 < j" by simp
    with j(3) have "?F 1" by blast
    with p1 show False by (simp add: passes_not_fails)
  qed
  with tr have b: "trigger probeRuntime 0 ''GO'' (script bypassed) =
     triggered (transitionTo probeRuntime 0 ''D'' None (mark ''exact guard'' (script bypassed)))"
    by (simp add: scan_defs matchesEvent_def plainState_def plainRule_def probeRuntime_def)
  show ?thesis
    unfolding a b by (simp add: shadowed_def bypassed_def engine_defs fixture_defs triggered_def)
qed


section \<open>Properties of the history\<close>

subsection \<open>Quiet runtimes\<close>

lemma sameObjects_refl: "sameObjects w w"
  by (simp add: sameObjects_def)

lemma sameObjects_trans: "sameObjects a b \<Longrightarrow> sameObjects b c \<Longrightarrow> sameObjects a c"
  by (simp add: sameObjects_def)

lemma quiet_call: "quiet rt \<Longrightarrow> \<exists>w'. call rt c w = (None, w') \<and> sameObjects w w'"
proof -
  assume "quiet rt"
  then have "fst (call rt c w) = None \<and> sameObjects w (snd (call rt c w))"
    by (simp add: quiet_def)
  then show ?thesis by (cases "call rt c w") simp
qed

lemma quiet_callOpt: "quiet rt \<Longrightarrow> \<exists>w'. callOpt rt f w = (None, w') \<and> sameObjects w w'"
  by (cases f) (auto simp: callOpt_def sameObjects_refl quiet_call)

lemma quiet_callUpdate: "quiet rt \<Longrightarrow> sameObjects w (snd (callUpdate rt c d w))"
  by (simp add: quiet_def)

lemma quiet_evalGuard: "quiet rt \<Longrightarrow> sameObjects w (snd (evalGuard rt c w))"
  by (simp add: quiet_def)

lemma quiet_findTransition:
  "quiet rt \<Longrightarrow> sameObjects w (snd (findTransition rt cur ev ts w))"
proof (induction ts arbitrary: w)
  case Nil
  then show ?case by (simp add: sameObjects_refl)
next
  case (Cons t ts)
  show ?case
  proof (cases "matchesEvent cur ev t")
    case False
    then show ?thesis using Cons by simp
  next
    case True
    show ?thesis
    proof (cases "tr_guard t")
      case None
      with True show ?thesis by (simp add: sameObjects_refl)
    next
      case (Some g)
      obtain r w' where g: "evalGuard rt g w = (r, w')" by (cases "evalGuard rt g w")
      with quiet_evalGuard[OF Cons.prems, of w g] have s: "sameObjects w w'" by simp
      from Cons.IH[OF Cons.prems, of w'] s
      have "sameObjects w (snd (findTransition rt cur ev ts w'))"
        by (rule sameObjects_trans[rotated])
      with True Some g s show ?thesis
        by (cases r) auto
    qed
  qed
qed

lemma quiet_transitionTo:
  assumes "quiet rt" and "states (machines w this) n = Some ns"
  shows "\<exists>w'. transitionTo rt this n act w = (Inr (), w') \<and>
           machines w' = (machines w)(this := (machines w this)\<lparr>currentState := Some ns\<rparr>) \<and>
           arrays w' = (arrays w)(history (machines w this) := arrays w (history (machines w this)) @ [n]) \<and>
           nextAddr w' = nextAddr w"
proof -
  obtain w1 where 1: "callOpt rt (case currentState (machines w this) of None \<Rightarrow> None | Some cs \<Rightarrow> onExit cs) w = (None, w1)"
    and s1: "sameObjects w w1" using quiet_callOpt[OF assms(1)] by blast
  obtain w2 where 2: "callOpt rt act w1 = (None, w2)" and s2: "sameObjects w1 w2"
    using quiet_callOpt[OF assms(1)] by blast
  let ?w4 = "pushHistory this n (setMachine this ((machines w2 this)\<lparr>currentState := Some ns\<rparr>) w2)"
  obtain w5 where 5: "callOpt rt (onEnter ns) ?w4 = (None, w5)" and s5: "sameObjects ?w4 w5"
    using quiet_callOpt[OF assms(1)] by blast
  have "transitionTo rt this n act w = (Inr (), w5)"
    using assms(2) 1 2 5 by (simp add: transitionTo_def Let_def)
  moreover have "machines w5 = (machines w)(this := (machines w this)\<lparr>currentState := Some ns\<rparr>)"
    "arrays w5 = (arrays w)(history (machines w this) := arrays w (history (machines w this)) @ [n])"
    "nextAddr w5 = nextAddr w"
    using s1 s2 s5 by (simp_all add: sameObjects_def pushHistory_def setMachine_def)
  ultimately show ?thesis by blast
qed

lemma quiet_probeRuntime: "quiet probeRuntime"
  unfolding quiet_def
proof (intro conjI allI)
  fix c :: probe and d :: int and w :: "(nat, probe, ledger) world"
  show "fst (call probeRuntime c w) = None"
    by (cases c) (simp_all add: probeRuntime_def)
  show "sameObjects w (snd (call probeRuntime c w))"
    by (cases c) (simp_all add: probeRuntime_def sameObjects_def mark_def)
  show "sameObjects w (snd (callUpdate probeRuntime c d w))"
    by (cases c) (simp_all add: probeRuntime_def sameObjects_def mark_def)
  show "sameObjects w (snd (evalGuard probeRuntime c w))"
    by (cases c) (simp_all add: probeRuntime_def sameObjects_def mark_def)
qed

subsection \<open>What one call adds to the history\<close>

lemma extends_same:
  "housed this w \<Longrightarrow> sameObjects w w' \<Longrightarrow> extends this w [] w'"
  by (simp add: extends_def housed_def sameObjects_def)

lemma invoke_start_history:
  assumes "quiet rt" and "housed this w"
  shows "extends this w (entered this (Start n) (invoke rt this (Start n) w))
           (snd (invoke rt this (Start n) w))"
proof (cases "states (machines w this) n")
  case None
  then show ?thesis using assms(2)
    by (simp add: start_def unitReply_def entered_def extends_same sameObjects_refl)
next
  case (Some s)
  show ?thesis
  proof (cases "currentState (machines w this)")
    case (Some cs)
    with \<open>states (machines w this) n = Some s\<close> show ?thesis using assms(2)
      by (simp add: start_def unitReply_def entered_def extends_same sameObjects_refl)
  next
    case None
    let ?w2 = "pushHistory this n (setMachine this ((machines w this)\<lparr>currentState := Some s\<rparr>) w)"
    obtain w3 where 3: "callOpt rt (onEnter s) ?w2 = (None, w3)" and s3: "sameObjects ?w2 w3"
      using quiet_callOpt[OF assms(1)] by blast
    have "invoke rt this (Start n) w = (Done, w3)"
      using None \<open>states (machines w this) n = Some s\<close> 3
      by (simp add: start_def unitReply_def Let_def)
    moreover have "extends this w [n] w3"
      using s3 assms(2)
      by (simp add: extends_def housed_def sameObjects_def pushHistory_def setMachine_def)
    ultimately show ?thesis by (simp add: entered_def)
  qed
qed

lemma invoke_trigger_history:
  assumes "quiet rt" and "housed this w"
  shows "extends this w (entered this (Trigger ev) (invoke rt this (Trigger ev) w))
           (snd (invoke rt this (Trigger ev) w))"
proof (cases "currentState (machines w this)")
  case None
  then show ?thesis using assms(2)
    by (simp add: trigger_def boolReply_def entered_def extends_same sameObjects_refl)
next
  case (Some cs)
  obtain r w1 where f: "findTransition rt (name cs) ev (transitions (machines w this)) w = (r, w1)"
    by (cases "findTransition rt (name cs) ev (transitions (machines w this)) w")
  have s1: "sameObjects w w1"
    using quiet_findTransition[OF assms(1), of w "name cs" ev "transitions (machines w this)"] f
    by simp
  show ?thesis
  proof (cases r)
    case (Inl e)
    with Some f s1 assms(2) show ?thesis
      by (simp add: trigger_def boolReply_def entered_def extends_same)
  next
    case (Inr found)
    show ?thesis
    proof (cases found)
      case None
      with Some f s1 Inr assms(2) show ?thesis
        by (simp add: trigger_def boolReply_def entered_def extends_same)
    next
      case (Some t)
      show ?thesis
      proof (cases "states (machines w1 this) (tr_to t)")
        case None
        then have "transitionTo rt this (tr_to t) (tr_action t) w1 =
            (Inl (UnknownStateError InTransitionTo (tr_to t)), w1)"
          by (simp add: transitionTo_def)
        with \<open>currentState (machines w this) = Some cs\<close> f Inr Some s1 assms(2) show ?thesis
          by (simp add: trigger_def boolReply_def entered_def extends_same)
      next
        case (Some ns)
        obtain w' where t: "transitionTo rt this (tr_to t) (tr_action t) w1 = (Inr (), w')"
          and m: "machines w' = (machines w1)(this := (machines w1 this)\<lparr>currentState := Some ns\<rparr>)"
          and a: "arrays w' = (arrays w1)(history (machines w1 this) :=
                     arrays w1 (history (machines w1 this)) @ [tr_to t])"
          and n: "nextAddr w' = nextAddr w1"
          using quiet_transitionTo[OF assms(1) Some] by blast
        have nm: "name ns = tr_to t"
          using Some s1 assms(2) by (simp add: housed_def sameObjects_def)
        have "invoke rt this (Trigger ev) w = (Answered True, w')"
          using \<open>currentState (machines w this) = Some cs\<close> f Inr \<open>found = Some t\<close> t
          by (simp add: trigger_def boolReply_def)
        moreover have "getCurrentState this w' = Inr (tr_to t)"
          using m nm by (simp add: getCurrentState_def)
        moreover have "extends this w [tr_to t] w'"
          using m a n s1 assms(2) by (simp add: extends_def housed_def sameObjects_def)
        ultimately show ?thesis by (simp add: entered_def)
      qed
    qed
  qed
qed

lemma invoke_history:
  assumes "quiet rt" and "housed this w"
  shows "extends this w (entered this r (invoke rt this r w)) (snd (invoke rt this r w))"
proof (cases r)
  case (AddState s)
  then show ?thesis using assms(2)
    by (auto simp: addState_def unitReply_def entered_def extends_def housed_def setMachine_def Let_def)
next
  case (AddTransition t)
  then show ?thesis using assms(2)
    by (auto simp: addTransition_def unitReply_def entered_def extends_def housed_def setMachine_def Let_def)
next
  case (Start n)
  then show ?thesis using invoke_start_history[OF assms] by simp
next
  case (Trigger ev)
  then show ?thesis using invoke_trigger_history[OF assms] by simp
next
  case (Update d)
  show ?thesis
  proof (cases "currentState (machines w this)")
    case None
    with Update assms(2) show ?thesis
      by (simp add: update_def unitReply_def entered_def extends_same sameObjects_refl)
  next
    case (Some cs)
    show ?thesis
    proof (cases "onUpdate cs")
      case None
      with Some Update assms(2) show ?thesis
        by (simp add: update_def unitReply_def entered_def extends_same sameObjects_refl)
    next
      case (Some c)
      obtain e w1 where u: "callUpdate rt c d w = (e, w1)" by (cases "callUpdate rt c d w")
      with quiet_callUpdate[OF assms(1), of w c d] have "sameObjects w w1" by simp
      with \<open>currentState (machines w this) = Some cs\<close> Some Update u assms(2) show ?thesis
        by (cases e) (simp_all add: update_def unitReply_def entered_def extends_same)
    qed
  qed
next
  case (CanTransition ev)
  show ?thesis
  proof (cases "currentState (machines w this)")
    case None
    with CanTransition assms(2) show ?thesis
      by (simp add: canTransition_def boolReply_def entered_def extends_same sameObjects_refl)
  next
    case (Some cs)
    obtain r' w1 where f: "findTransition rt (name cs) ev (transitions (machines w this)) w = (r', w1)"
      by (cases "findTransition rt (name cs) ev (transitions (machines w this)) w")
    have "sameObjects w w1"
      using quiet_findTransition[OF assms(1), of w "name cs" ev "transitions (machines w this)"] f
      by simp
    with Some CanTransition f assms(2) show ?thesis
      by (cases r') (simp_all add: canTransition_def boolReply_def entered_def extends_same)
  qed
next
  case GetCurrentState
  then show ?thesis using assms(2)
    by (cases "getCurrentState this w") (simp_all add: entered_def extends_same sameObjects_refl)
next
  case GetHistory
  then show ?thesis using assms(2)
    by (auto simp: getHistory_def entered_def extends_def housed_def Let_def)
qed

lemma run_history:
  assumes "quiet rt"
  shows "housed this w \<Longrightarrow> extends this w (visited rt this rs w) (run rt this rs w)"
proof (induction rs arbitrary: w)
  case Nil
  then show ?case by (simp add: extends_same sameObjects_refl)
next
  case (Cons r rs)
  let ?w1 = "snd (invoke rt this r w)"
  have 1: "extends this w (entered this r (invoke rt this r w)) ?w1"
    using invoke_history[OF assms Cons.prems] .
  then have "housed this ?w1" by (simp add: extends_def)
  from Cons.IH[OF this] have 2: "extends this ?w1 (visited rt this rs ?w1) (run rt this rs ?w1)" .
  from 1 2 show ?case by (simp add: extends_def)
qed

lemma housed_new: "housed this (newStateMachine this w0)"
  by (simp add: housed_def newStateMachine_def)

lemma historyCopy_eq: "historyCopy this w = arrays w (history (machines w this))"
  by (simp add: historyCopy_def getHistory_def Let_def)

subsection \<open>Callbacks that call back\<close>

lemma reaches_refl: "housed this w \<Longrightarrow> ok w \<Longrightarrow> reaches this ok w [] w"
  by (simp add: reaches_def extends_def)

lemma reaches_trans:
  "reaches this ok w xs w1 \<Longrightarrow> reaches this ok w1 ys w2 \<Longrightarrow> reaches this ok w (xs @ ys) w2"
  by (simp add: reaches_def extends_def)

lemma reaches_pre: "reaches this ok w xs w' \<Longrightarrow> housed this w' \<and> ok w'"
  by (simp add: reaches_def extends_def)

lemma reaches_enter:
  assumes "steady this ok" and "housed this w" and "ok w" and "name s = n"
  shows "reaches this ok w [n]
           (pushHistory this n (setMachine this ((machines w this)\<lparr>currentState := Some s\<rparr>) w))"
proof -
  let ?w' = "pushHistory this n (setMachine this ((machines w this)\<lparr>currentState := Some s\<rparr>) w)"
  have "ok ?w'"
    using assms(1,3) unfolding steady_def
    by (elim allE[of _ w] allE[of _ ?w']) (simp add: pushHistory_def setMachine_def)
  moreover have "extends this w [n] ?w'"
    using assms(2) by (simp add: extends_def housed_def pushHistory_def setMachine_def)
  ultimately show ?thesis by (simp add: reaches_def)
qed

lemma snd_unitReply: "snd (unitReply r) = snd r"
  by (simp add: unitReply_def split: prod.splits sum.splits)

lemma snd_boolReply: "snd (boolReply r) = snd r"
  by (simp add: boolReply_def split: prod.splits sum.splits)

lemma snd_dropAnswer: "snd (dropAnswer r) = snd r"
  by (simp add: dropAnswer_def split: prod.splits sum.splits)

lemma accounted_call:
  "accounted rt acc this ok \<Longrightarrow> housed this w \<Longrightarrow> ok w \<Longrightarrow>
   reaches this ok w (enters acc c w) (snd (call rt c w))"
  by (simp add: accounted_def)

lemma accounted_callUpdate:
  "accounted rt acc this ok \<Longrightarrow> housed this w \<Longrightarrow> ok w \<Longrightarrow>
   reaches this ok w (entersOnUpdate acc c d w) (snd (callUpdate rt c d w))"
  by (simp add: accounted_def)

lemma accounted_evalGuard:
  "accounted rt acc this ok \<Longrightarrow> housed this w \<Longrightarrow> ok w \<Longrightarrow>
   reaches this ok w (entersInGuard acc c w) (snd (evalGuard rt c w))"
  by (simp add: accounted_def)

lemma reaches_callOpt:
  assumes "accounted rt acc this ok" and "housed this w" and "ok w"
  shows "reaches this ok w (entersOpt acc f w) (snd (callOpt rt f w))"
proof (cases f)
  case None
  then show ?thesis using assms(2,3) by (simp add: entersOpt_def callOpt_def reaches_refl)
next
  case (Some c)
  then show ?thesis using accounted_call[OF assms, of c] by (simp add: entersOpt_def callOpt_def)
qed

lemma reaches_scan:
  assumes "accounted rt acc this ok"
  shows "housed this w \<Longrightarrow> ok w \<Longrightarrow>
         reaches this ok w (scanEntries rt acc cur ev ts w) (snd (findTransition rt cur ev ts w))"
proof (induction ts arbitrary: w)
  case Nil
  then show ?case by (simp add: reaches_refl)
next
  case (Cons t ts)
  show ?case
  proof (cases "matchesEvent cur ev t")
    case False
    then show ?thesis using Cons by simp
  next
    case True
    show ?thesis
    proof (cases "tr_guard t")
      case None
      with True Cons.prems show ?thesis by (simp add: reaches_refl)
    next
      case (Some g)
      obtain r w' where g: "evalGuard rt g w = (r, w')" by (cases "evalGuard rt g w")
      have 1: "reaches this ok w (entersInGuard acc g w) w'"
        using accounted_evalGuard[OF assms Cons.prems, of g] g by simp
      show ?thesis
      proof (cases r)
        case (Inl e)
        with True Some g 1 show ?thesis by simp
      next
        case (Inr b)
        show ?thesis
        proof (cases b)
          case True
          with \<open>matchesEvent cur ev t\<close> Some g Inr 1 show ?thesis by simp
        next
          case False
          from reaches_pre[OF 1] have "housed this w'" "ok w'" by simp_all
          from Cons.IH[OF this] have
            "reaches this ok w' (scanEntries rt acc cur ev ts w') (snd (findTransition rt cur ev ts w'))" .
          from reaches_trans[OF 1 this] \<open>matchesEvent cur ev t\<close> Some g Inr False
          show ?thesis by simp
        qed
      qed
    qed
  qed
qed

lemma reaches_transitionTo:
  assumes "accounted rt acc this ok" and "steady this ok" and "housed this w" and "ok w"
  shows "reaches this ok w (transitionEntries rt acc this n act w) (snd (transitionTo rt this n act w))"
proof (cases "states (machines w this) n")
  case None
  then show ?thesis using assms(3,4) by (simp add: transitionTo_def transitionEntries_def reaches_refl)
next
  case (Some ns)
  then have nm: "name ns = n" using assms(3) by (simp add: housed_def)
  let ?x = "case currentState (machines w this) of None \<Rightarrow> None | Some cs \<Rightarrow> onExit cs"
  obtain e1 w1 where 1: "callOpt rt ?x w = (e1, w1)" by (cases "callOpt rt ?x w")
  have r1: "reaches this ok w (entersOpt acc ?x w) w1"
    using reaches_callOpt[OF assms(1,3,4), of ?x] 1 by simp
  show ?thesis
  proof (cases e1)
    case (Some e)
    with \<open>states (machines w this) n = Some ns\<close> 1 r1 show ?thesis
      by (simp add: transitionTo_def transitionEntries_def Let_def)
  next
    case None
    note e1 = None
    from reaches_pre[OF r1] have h1: "housed this w1" "ok w1" by simp_all
    obtain e2 w2 where 2: "callOpt rt act w1 = (e2, w2)" by (cases "callOpt rt act w1")
    have r2: "reaches this ok w1 (entersOpt acc act w1) w2"
      using reaches_callOpt[OF assms(1) h1, of act] 2 by simp
    show ?thesis
    proof (cases e2)
      case (Some e)
      with \<open>states (machines w this) n = Some ns\<close> 1 2 e1 reaches_trans[OF r1 r2] show ?thesis
        by (simp add: transitionTo_def transitionEntries_def Let_def)
    next
      case None
      from reaches_pre[OF r2] have h2: "housed this w2" "ok w2" by simp_all
      let ?w4 = "pushHistory this n (setMachine this ((machines w2 this)\<lparr>currentState := Some ns\<rparr>) w2)"
      have r4: "reaches this ok w2 [n] ?w4"
        using assms(2) h2 nm by (rule reaches_enter)
      from reaches_pre[OF r4] have h4: "housed this ?w4" "ok ?w4" by simp_all
      obtain e5 w5 where 5: "callOpt rt (onEnter ns) ?w4 = (e5, w5)"
        by (cases "callOpt rt (onEnter ns) ?w4")
      have r5: "reaches this ok ?w4 (entersOpt acc (onEnter ns) ?w4) w5"
        using reaches_callOpt[OF assms(1) h4, of "onEnter ns"] 5 by simp
      have "reaches this ok w
              (entersOpt acc ?x w @ entersOpt acc act w1 @ [n] @ entersOpt acc (onEnter ns) ?w4) w5"
        using reaches_trans[OF r1 reaches_trans[OF r2 reaches_trans[OF r4 r5]]] by simp
      with \<open>states (machines w this) n = Some ns\<close> 1 2 5 e1 None show ?thesis
        by (cases e5) (simp_all add: transitionTo_def transitionEntries_def Let_def)
    qed
  qed
qed

lemma reaches_trigger:
  assumes "accounted rt acc this ok" and "steady this ok" and "housed this w" and "ok w"
  shows "reaches this ok w (triggerEntries rt acc this ev w) (snd (trigger rt this ev w))"
proof (cases "currentState (machines w this)")
  case None
  then show ?thesis using assms(3,4) by (simp add: trigger_def triggerEntries_def reaches_refl)
next
  case (Some cs)
  obtain r w1 where f: "findTransition rt (name cs) ev (transitions (machines w this)) w = (r, w1)"
    by (cases "findTransition rt (name cs) ev (transitions (machines w this)) w")
  have r1: "reaches this ok w (scanEntries rt acc (name cs) ev (transitions (machines w this)) w) w1"
    using reaches_scan[OF assms(1,3,4), of "name cs" ev "transitions (machines w this)"] f by simp
  show ?thesis
  proof (cases r)
    case (Inl e)
    with Some f r1 show ?thesis by (simp add: trigger_def triggerEntries_def)
  next
    case (Inr found)
    show ?thesis
    proof (cases found)
      case None
      with Some f Inr r1 show ?thesis by (simp add: trigger_def triggerEntries_def)
    next
      case (Some t)
      from reaches_pre[OF r1] have h1: "housed this w1" "ok w1" by simp_all
      obtain q w2 where t: "transitionTo rt this (tr_to t) (tr_action t) w1 = (q, w2)"
        by (cases "transitionTo rt this (tr_to t) (tr_action t) w1")
      have "reaches this ok w1 (transitionEntries rt acc this (tr_to t) (tr_action t) w1) w2"
        using reaches_transitionTo[OF assms(1,2) h1, of "tr_to t" "tr_action t"] t by simp
      from reaches_trans[OF r1 this] \<open>currentState (machines w this) = Some cs\<close> f Inr Some t
      show ?thesis
        by (cases q) (simp_all add: trigger_def triggerEntries_def)
    qed
  qed
qed

lemma reaches_start:
  assumes "accounted rt acc this ok" and "steady this ok" and "housed this w" and "ok w"
  shows "reaches this ok w (startEntries rt acc this n w) (snd (start rt this n w))"
proof (cases "states (machines w this) n")
  case None
  then show ?thesis using assms(3,4) by (simp add: start_def startEntries_def reaches_refl)
next
  case (Some s)
  then have nm: "name s = n" using assms(3) by (simp add: housed_def)
  show ?thesis
  proof (cases "currentState (machines w this)")
    case (Some cs)
    with \<open>states (machines w this) n = Some s\<close> assms(3,4) show ?thesis
      by (simp add: start_def startEntries_def reaches_refl)
  next
    case None
    let ?w2 = "pushHistory this n (setMachine this ((machines w this)\<lparr>currentState := Some s\<rparr>) w)"
    have r2: "reaches this ok w [n] ?w2"
      using assms(2,3,4) nm by (rule reaches_enter)
    from reaches_pre[OF r2] have h2: "housed this ?w2" "ok ?w2" by simp_all
    obtain e w3 where 3: "callOpt rt (onEnter s) ?w2 = (e, w3)"
      by (cases "callOpt rt (onEnter s) ?w2")
    have "reaches this ok ?w2 (entersOpt acc (onEnter s) ?w2) w3"
      using reaches_callOpt[OF assms(1) h2, of "onEnter s"] 3 by simp
    from reaches_trans[OF r2 this] None \<open>states (machines w this) n = Some s\<close> 3 show ?thesis
      by (cases e) (simp_all add: start_def startEntries_def Let_def)
  qed
qed

lemma steady_step:
  "steady this ok \<Longrightarrow> ok w \<Longrightarrow> \<forall>j. j \<noteq> this \<longrightarrow> machines w' j = machines w j \<Longrightarrow>
   history (machines w' this) = history (machines w this) \<Longrightarrow> env w' = env w \<Longrightarrow> ok w'"
  unfolding steady_def by blast

lemma reaches_invoke:
  assumes "accounted rt acc this ok" and "steady this ok" and "housed this w" and "ok w"
  shows "reaches this ok w (entries rt acc this r w) (snd (invoke rt this r w))"
proof (cases r)
  case (AddState s)
  have "ok (snd (addState this s w))"
    by (rule steady_step[OF assms(2,4)]) (simp_all add: addState_def setMachine_def Let_def)
  moreover have "extends this w [] (snd (addState this s w))"
    using assms(3) by (auto simp: addState_def extends_def housed_def setMachine_def Let_def)
  ultimately show ?thesis using AddState by (simp add: reaches_def snd_unitReply)
next
  case (AddTransition t)
  have "ok (snd (addTransition this t w))"
    by (rule steady_step[OF assms(2,4)]) (simp_all add: addTransition_def setMachine_def Let_def)
  moreover have "extends this w [] (snd (addTransition this t w))"
    using assms(3) by (auto simp: addTransition_def extends_def housed_def setMachine_def Let_def)
  ultimately show ?thesis using AddTransition by (simp add: reaches_def snd_unitReply)
next
  case (Start n)
  then show ?thesis using reaches_start[OF assms, of n] by (simp add: snd_unitReply)
next
  case (Trigger ev)
  then show ?thesis using reaches_trigger[OF assms, of ev] by (simp add: snd_boolReply)
next
  case (Update d)
  show ?thesis
  proof (cases "currentState (machines w this)")
    case None
    with Update assms(3,4) show ?thesis
      by (simp add: update_def updateEntries_def unitReply_def reaches_refl)
  next
    case (Some cs)
    show ?thesis
    proof (cases "onUpdate cs")
      case None
      with Some Update assms(3,4) show ?thesis
        by (simp add: update_def updateEntries_def unitReply_def reaches_refl)
    next
      case (Some c)
      obtain e w1 where u: "callUpdate rt c d w = (e, w1)" by (cases "callUpdate rt c d w")
      have "reaches this ok w (entersOnUpdate acc c d w) w1"
        using accounted_callUpdate[OF assms(1,3,4), of c d] u by simp
      with \<open>currentState (machines w this) = Some cs\<close> Some Update u show ?thesis
        by (cases e) (simp_all add: update_def updateEntries_def unitReply_def)
    qed
  qed
next
  case (CanTransition ev)
  show ?thesis
  proof (cases "currentState (machines w this)")
    case None
    with CanTransition assms(3,4) show ?thesis
      by (simp add: canTransition_def canTransitionEntries_def boolReply_def reaches_refl)
  next
    case (Some cs)
    obtain r' w1 where f: "findTransition rt (name cs) ev (transitions (machines w this)) w = (r', w1)"
      by (cases "findTransition rt (name cs) ev (transitions (machines w this)) w")
    have "reaches this ok w (scanEntries rt acc (name cs) ev (transitions (machines w this)) w) w1"
      using reaches_scan[OF assms(1,3,4), of "name cs" ev "transitions (machines w this)"] f by simp
    with Some CanTransition f show ?thesis
      by (cases r') (simp_all add: canTransition_def canTransitionEntries_def boolReply_def)
  qed
next
  case GetCurrentState
  then show ?thesis using assms(3,4)
    by (cases "getCurrentState this w") (simp_all add: reaches_refl)
next
  case GetHistory
  have "ok (snd (getHistory this w))"
    by (rule steady_step[OF assms(2,4)]) (simp_all add: getHistory_def Let_def)
  moreover have "extends this w [] (snd (getHistory this w))"
    using assms(3) by (auto simp: getHistory_def extends_def housed_def Let_def)
  ultimately show ?thesis using GetHistory
    by (cases "getHistory this w") (simp add: reaches_def)
qed

lemma reaches_run:
  assumes "accounted rt acc this ok" and "steady this ok"
  shows "housed this w \<Longrightarrow> ok w \<Longrightarrow>
         reaches this ok w (journal rt acc this rs w) (run rt this rs w)"
proof (induction rs arbitrary: w)
  case Nil
  then show ?case by (simp add: reaches_refl)
next
  case (Cons r rs)
  let ?w1 = "snd (invoke rt this r w)"
  have 1: "reaches this ok w (entries rt acc this r w) ?w1"
    using reaches_invoke[OF assms Cons.prems] .
  from reaches_pre[OF 1] have "housed this ?w1" "ok ?w1" by simp_all
  from Cons.IH[OF this] have "reaches this ok ?w1 (journal rt acc this rs ?w1) (run rt this rs ?w1)" .
  from reaches_trans[OF 1 this] show ?case by simp
qed

lemma steady_True: "steady this (\<lambda>w. True)"
  by (simp add: steady_def)

lemma quiet_accounted_ok:
  assumes "quiet rt" and "\<forall>w w'. ok w \<and> sameObjects w w' \<longrightarrow> ok w'"
  shows "accounted rt silent this ok"
proof -
  have r: "reaches this ok w [] w'" if "housed this w \<and> ok w" and "sameObjects w w'" for w w'
    using that assms(2) by (auto simp: reaches_def intro: extends_same)
  show ?thesis
    unfolding accounted_def silent_def
    using assms(1) by (auto simp: quiet_def intro!: r)
qed

lemma quiet_accounted: "quiet rt \<Longrightarrow> accounted rt silent this (\<lambda>w. True)"
  by (rule quiet_accounted_ok) simp_all

lemma journal_quiet:
  assumes "quiet rt"
  shows "housed this w \<Longrightarrow> journal rt silent this rs w = visited rt this rs w"
proof -
  assume h: "housed this w"
  have a: "accounted rt silent this (\<lambda>w. True)" using assms by (rule quiet_accounted)
  have "reaches this (\<lambda>w. True) w (journal rt silent this rs w) (run rt this rs w)"
    using a steady_True h by (rule reaches_run) simp
  moreover have "extends this w (visited rt this rs w) (run rt this rs w)"
    using assms h by (rule run_history)
  ultimately show ?thesis by (simp add: reaches_def extends_def)
qed

lemma accounted_firingRuntime: "accounted firingRuntime firingAccount 0 (\<lambda>w. True)"
  unfolding accounted_def
proof (intro conjI allI impI)
  fix c :: probe and d :: int and w :: "(nat, probe, ledger) world"
  assume h: "housed 0 w \<and> True"
  have a: "accounted probeRuntime silent 0 (\<lambda>w. True)"
    using quiet_probeRuntime by (rule quiet_accounted)
  have p: "reaches 0 (\<lambda>w. True) w [] (snd (probeCall c w))"
    using accounted_call[OF a, of w c] h by (simp add: probeRuntime_def silent_def)
  show "reaches 0 (\<lambda>w. True) w (enters firingAccount c w) (snd (call firingRuntime c w))"
    using p by (simp add: firingRuntime_def firingAccount_def)
  show "reaches 0 (\<lambda>w. True) w (entersInGuard firingAccount c w) (snd (evalGuard firingRuntime c w))"
    using accounted_evalGuard[OF a, of w c] h
    by (simp add: firingRuntime_def firingAccount_def probeRuntime_def silent_def)
  show "reaches 0 (\<lambda>w. True) w (entersOnUpdate firingAccount c d w) (snd (callUpdate firingRuntime c d w))"
    using p reaches_trigger[OF a steady_True, of w] h
    by (cases c) (simp_all add: firingRuntime_def firingAccount_def snd_dropAnswer)
qed

lemma accounted_throwingRuntime: "accounted throwingRuntime silent 0 (\<lambda>w. True)"
  by (simp add: accounted_def throwingRuntime_def silent_def reaches_refl)

subsection \<open>The light states as callbacks\<close>

lemma quiet_innerRuntime: "quiet (innerRuntime (ar :: 'n arithmetic))"
  unfolding quiet_def
proof (intro conjI allI)
  fix c :: closure and d :: 'n and w :: "'n crossing"
  show "fst (call (innerRuntime ar) c w) = None"
    by (cases c) (simp_all add: innerRuntime_def)
  show "sameObjects w (snd (call (innerRuntime ar) c w))"
    by (cases c) (simp_all add: innerRuntime_def sameObjects_def setTimer_def)
  show "sameObjects w (snd (callUpdate (innerRuntime ar) c d w))"
    by (simp add: innerRuntime_def sameObjects_def)
  show "sameObjects w (snd (evalGuard (innerRuntime ar) c w))"
    by (cases c) (simp_all add: innerRuntime_def sameObjects_def)
qed

lemma steady_apart: "steady this apart"
  unfolding steady_def apart_def
proof (intro allI impI)
  fix w w' :: "'a crossing"
  assume a: "history (machines w NS) \<noteq> history (machines w EW) \<and>
       (\<forall>j. j \<noteq> this \<longrightarrow> machines w' j = machines w j) \<and>
       history (machines w' this) = history (machines w this) \<and> env w' = env w"
  then have "history (machines w' j) = history (machines w j)" for j
    by (cases "j = this") simp_all
  with a show "history (machines w' NS) \<noteq> history (machines w' EW)" by simp
qed

lemma apart_sameObjects: "\<forall>w w'. apart w \<and> sameObjects w w' \<longrightarrow> apart w'"
  by (simp add: apart_def sameObjects_def)

text \<open>What a trigger under a quiet runtime leaves alone.\<close>

lemma quiet_trigger_frame:
  assumes "quiet rt"
  shows "(\<forall>p. p \<noteq> m \<longrightarrow> machines (snd (trigger rt m ev w)) p = machines w p) \<and>
         history (machines (snd (trigger rt m ev w)) m) = history (machines w m) \<and>
         nextAddr (snd (trigger rt m ev w)) = nextAddr w \<and>
         (\<forall>a. a \<noteq> history (machines w m) \<longrightarrow> arrays (snd (trigger rt m ev w)) a = arrays w a)"
proof (cases "currentState (machines w m)")
  case None
  then show ?thesis by (simp add: trigger_def)
next
  case (Some cs)
  obtain r w1 where f: "findTransition rt (name cs) ev (transitions (machines w m)) w = (r, w1)"
    by (cases "findTransition rt (name cs) ev (transitions (machines w m)) w")
  have s1: "sameObjects w w1"
    using quiet_findTransition[OF assms, of w "name cs" ev "transitions (machines w m)"] f by simp
  show ?thesis
  proof (cases r)
    case (Inl e)
    with Some f s1 show ?thesis by (simp add: trigger_def sameObjects_def)
  next
    case (Inr found)
    show ?thesis
    proof (cases found)
      case None
      with Some f Inr s1 show ?thesis by (simp add: trigger_def sameObjects_def)
    next
      case (Some t)
      show ?thesis
      proof (cases "states (machines w1 m) (tr_to t)")
        case None
        then have "transitionTo rt m (tr_to t) (tr_action t) w1 =
            (Inl (UnknownStateError InTransitionTo (tr_to t)), w1)"
          by (simp add: transitionTo_def)
        with \<open>currentState (machines w m) = Some cs\<close> f Inr Some s1 show ?thesis
          by (simp add: trigger_def sameObjects_def)
      next
        case (Some ns)
        obtain w' where t: "transitionTo rt m (tr_to t) (tr_action t) w1 = (Inr (), w')"
          and mm: "machines w' = (machines w1)(m := (machines w1 m)\<lparr>currentState := Some ns\<rparr>)"
          and a: "arrays w' = (arrays w1)(history (machines w1 m) :=
                     arrays w1 (history (machines w1 m)) @ [tr_to t])"
          and n: "nextAddr w' = nextAddr w1"
          using quiet_transitionTo[OF assms Some] by blast
        have "snd (trigger rt m ev w) = w'"
          using \<open>currentState (machines w m) = Some cs\<close> f Inr \<open>found = Some t\<close> t
          by (simp add: trigger_def)
        with mm a n s1 show ?thesis by (simp add: sameObjects_def)
      qed
    qed
  qed
qed

lemma accounted_crossingRuntime:
  "accounted (crossingRuntime (ar :: 'n arithmetic)) (lightAccount ar this) this apart"
  unfolding accounted_def
proof (intro conjI allI impI)
  fix c :: closure and d :: 'n and w :: "'n crossing"
  assume h: "housed this w \<and> apart w"
  have a: "accounted (innerRuntime ar) silent this apart"
    using quiet_innerRuntime apart_sameObjects by (rule quiet_accounted_ok)
  have env_only: "reaches this apart w [] (w\<lparr>env := e\<rparr>)" for e
    using h by (simp add: reaches_def extends_def housed_def apart_def)
  show "reaches this apart w (enters (lightAccount ar this) c w) (snd (call (crossingRuntime ar) c w))"
    using env_only h
    by (cases c) (simp_all add: crossingRuntime_def lightAccount_def setTimer_def reaches_refl)
  show "reaches this apart w (entersInGuard (lightAccount ar this) c w)
          (snd (evalGuard (crossingRuntime ar) c w))"
    using h by (cases c) (simp_all add: crossingRuntime_def lightAccount_def reaches_refl)
  show "reaches this apart w (entersOnUpdate (lightAccount ar this) c d w)
          (snd (callUpdate (crossingRuntime ar) c d w))"
  proof (cases c)
    case (LightUpdate m l)
    let ?w1 = "setTimer m l (addition ar (timer (env w) m l) d) w"
    have r1: "reaches this apart w [] ?w1"
      using env_only by (simp add: setTimer_def)
    from reaches_pre[OF r1] have h1: "housed this ?w1" "apart ?w1" by simp_all
    show ?thesis
    proof (cases "greaterEq ar (timer (env ?w1) m l) (literal ar (duration l))")
      case False
      with LightUpdate r1 show ?thesis
        by (simp add: crossingRuntime_def lightAccount_def Let_def)
    next
      case True
      let ?w2 = "snd (trigger (innerRuntime ar) m ''TIMER_EXPIRED'' ?w1)"
      have u: "snd (callUpdate (crossingRuntime ar) c d w) = ?w2"
        using LightUpdate True
        by (simp add: crossingRuntime_def Let_def split: prod.splits sum.splits)
      show ?thesis
      proof (cases "m = this")
        case True
        have "reaches this apart ?w1 (triggerEntries (innerRuntime ar) silent this ''TIMER_EXPIRED'' ?w1)
                (snd (trigger (innerRuntime ar) this ''TIMER_EXPIRED'' ?w1))"
          using a steady_apart h1 by (rule reaches_trigger)
        from reaches_trans[OF r1 this] u True LightUpdate
          \<open>greaterEq ar (timer (env ?w1) m l) (literal ar (duration l))\<close>
        show ?thesis by (simp add: lightAccount_def Let_def)
      next
        case False
        from quiet_trigger_frame[OF quiet_innerRuntime[of ar], of m "''TIMER_EXPIRED''" ?w1]
        have fr: "\<forall>p. p \<noteq> m \<longrightarrow> machines ?w2 p = machines ?w1 p"
          "history (machines ?w2 m) = history (machines ?w1 m)"
          "nextAddr ?w2 = nextAddr ?w1"
          "\<forall>a. a \<noteq> history (machines ?w1 m) \<longrightarrow> arrays ?w2 a = arrays ?w1 a"
          by simp_all
        have ne: "history (machines ?w1 this) \<noteq> history (machines ?w1 m)"
          using h1(2) False by (cases this; cases m) (auto simp: apart_def)
        have "reaches this apart ?w1 [] ?w2"
          unfolding reaches_def extends_def
          using fr ne h1 False
          by (cases this; cases m) (auto simp: housed_def apart_def)
        from reaches_trans[OF r1 this] u False LightUpdate show ?thesis
          by (simp add: lightAccount_def Let_def)
      qed
    qed
  qed (use h in \<open>simp_all add: crossingRuntime_def lightAccount_def reaches_refl\<close>)
qed

subsection \<open>What getHistory returns\<close>

text \<open>
  Claim C9. On a machine made by \<^verbatim>\<open>new StateMachine()\<close> and driven by any calls,
  \<^verbatim>\<open>getHistory()\<close> returns the names of the states the machine has entered, in order:
  first the state of the \<^verbatim>\<open>start\<close> that got past its checks, then the target of every
  transition carried out, whether \<^verbatim>\<open>trigger\<close> was called by the client or by a
  callback of the machine in the middle of another call, and whether or not a callback
  threw afterwards. This holds for every runtime whose callbacks are accounted for:
  callbacks that leave the machine alone (throwing or not), and callbacks that call
  \<^verbatim>\<open>trigger\<close>, as the \<^verbatim>\<open>onUpdate\<close> of the light states does. When the callbacks are
  quiet, these are the states the client saw the machine enter: the name of the
  successful \<^verbatim>\<open>start\<close>, then the state reached by each \<^verbatim>\<open>trigger\<close> that returned
  true. The array returned is a new one, not the machine's: whatever the client writes
  into it, the machine's history array and the result of a later \<^verbatim>\<open>getHistory()\<close>
  stay the same. And from any store in which the machine is housed, not only after a run
  from \<^verbatim>\<open>new StateMachine()\<close>, a call appends to the history exactly the states the
  machine enters during that call.
\<close>

theorem history_entered_and_copied:
  assumes "accounted rt acc this ok" and "steady this ok" and "ok (newStateMachine this w0)"
      and "w = run rt this rs (newStateMachine this w0)"
  shows "historyCopy this w = journal rt acc this rs (newStateMachine this w0) \<and>
         (quiet rt \<longrightarrow> historyCopy this w = visited rt this rs (newStateMachine this w0)) \<and>
         fst (getHistory this w) \<noteq> history (machines w this) \<and>
         (\<forall>xs. arrays (overwrite (fst (getHistory this w)) xs (snd (getHistory this w)))
                  (history (machines w this)) = arrays w (history (machines w this)) \<and>
               historyCopy this (overwrite (fst (getHistory this w)) xs (snd (getHistory this w))) =
                 historyCopy this w) \<and>
         (\<forall>v r. housed this v \<and> ok v \<longrightarrow>
                historyCopy this (snd (invoke rt this r v)) =
                  historyCopy this v @ entries rt acc this r v)"
proof -
  have r: "reaches this ok (newStateMachine this w0) (journal rt acc this rs (newStateMachine this w0)) w"
    unfolding assms(4) using assms(1,2) housed_new assms(3) by (rule reaches_run)
  then have e: "extends this (newStateMachine this w0) (journal rt acc this rs (newStateMachine this w0)) w"
    by (simp add: reaches_def)
  have n: "arrays (newStateMachine this w0) (history (machines (newStateMachine this w0) this)) = []"
    by (simp add: newStateMachine_def)
  with e have 1: "historyCopy this w = journal rt acc this rs (newStateMachine this w0)"
    by (simp add: extends_def historyCopy_eq)
  have q: "historyCopy this w = visited rt this rs (newStateMachine this w0)" if "quiet rt"
  proof -
    have "extends this (newStateMachine this w0) (visited rt this rs (newStateMachine this w0)) w"
      unfolding assms(4) using that housed_new by (rule run_history)
    with n show ?thesis by (simp add: extends_def historyCopy_eq)
  qed
  from e have lt: "history (machines w this) < nextAddr w"
    by (simp add: extends_def housed_def)
  then have 2: "fst (getHistory this w) \<noteq> history (machines w this)"
    by (simp add: getHistory_def Let_def)
  have 3: "arrays (overwrite (fst (getHistory this w)) xs (snd (getHistory this w)))
             (history (machines w this)) = arrays w (history (machines w this))" for xs
    using lt by (simp add: overwrite_def getHistory_def Let_def)
  have 4: "historyCopy this (overwrite (fst (getHistory this w)) xs (snd (getHistory this w))) =
             historyCopy this w" for xs
    using lt by (simp add: historyCopy_eq overwrite_def getHistory_def Let_def)
  have 5: "historyCopy this (snd (invoke rt this r v)) = historyCopy this v @ entries rt acc this r v"
    if "housed this v \<and> ok v" for v r
  proof -
    from that have "reaches this ok v (entries rt acc this r v) (snd (invoke rt this r v))"
      by (intro reaches_invoke[OF assms(1,2)]) simp_all
    then show ?thesis by (simp add: reaches_def extends_def historyCopy_eq)
  qed
  from 1 q 2 3 4 5 show ?thesis by blast
qed

theorem history_entered_and_copied_witness:
  "historyCopy 0 (script tracked) = [''A'', ''B'', ''C''] \<and>
   journal probeRuntime silent 0 tracked (newStateMachine 0 (emptyStore [])) = [''A'', ''B'', ''C''] \<and>
   visited probeRuntime 0 tracked (newStateMachine 0 (emptyStore [])) = [''A'', ''B'', ''C''] \<and>
   fst (getHistory 0 (script tracked)) \<noteq> history (machines (script tracked) 0) \<and>
   historyCopy 0 (overwrite (fst (getHistory 0 (script tracked)))
                    (historyCopy 0 (script tracked) @ [''FAKE''])
                    (snd (getHistory 0 (script tracked)))) = [''A'', ''B'', ''C''] \<and>
   historyCopy 0 (run firingRuntime 0 selfDriving (newStateMachine 0 (emptyStore []))) = [''A'', ''B''] \<and>
   journal firingRuntime firingAccount 0 selfDriving (newStateMachine 0 (emptyStore [])) = [''A'', ''B''] \<and>
   fst (invoke throwingRuntime 0 (Start ''A'') faultyMachine) = Threw (ApplicationError ''enter failed'') \<and>
   historyCopy 0 (run throwingRuntime 0 [AddState faulty, Start ''A''] (newStateMachine 0 (emptyStore ()))) =
     [''A''] \<and>
   journal throwingRuntime silent 0 [AddState faulty, Start ''A''] (newStateMachine 0 (emptyStore ())) =
     [''A''] \<and>
   historyCopy EW (run (crossingRuntime wholeNumbers) EW eastWestAlone (newStateMachine EW twoMachines)) =
     [''RED'', ''GREEN'', ''YELLOW'', ''RED''] \<and>
   journal (crossingRuntime wholeNumbers) (lightAccount wholeNumbers EW) EW eastWestAlone
       (newStateMachine EW twoMachines) = [''RED'', ''GREEN'', ''YELLOW'', ''RED''] \<and>
   getCurrentState NS (snd (update (crossingRuntime wholeNumbers) NS (Whole 5000) redWaiting)) =
     Inr ''RED'' \<and>
   historyCopy EW (snd (update (crossingRuntime wholeNumbers) NS (Whole 5000) redWaiting)) = [''RED''] \<and>
   historyCopy EW
       (snd (invoke (crossingRuntime wholeNumbers) EW (Update (Whole 5000))
               (snd (update (crossingRuntime wholeNumbers) NS (Whole 5000) redWaiting)))) =
     [''RED'', ''GREEN'']"
proof -
  note h = history_entered_and_copied[OF quiet_accounted[OF quiet_probeRuntime] steady_True,
      where this = 0 and rs = tracked and ?w0.0 = "emptyStore []", OF _ refl]
  have s: "script tracked = run probeRuntime 0 tracked (newStateMachine 0 (emptyStore []))"
    by (simp add: script_def)
  have k2: "journal probeRuntime silent 0 tracked (newStateMachine 0 (emptyStore [])) = [''A'', ''B'', ''C'']"
    by (simp add: tracked_def silent_def startEntries_def triggerEntries_def transitionEntries_def
                  entersOpt_def engine_defs fixture_defs)
  have k3: "visited probeRuntime 0 tracked (newStateMachine 0 (emptyStore [])) = [''A'', ''B'', ''C'']"
    by (simp add: tracked_def entered_def engine_defs fixture_defs)
  have k1: "historyCopy 0 (script tracked) = [''A'', ''B'', ''C'']"
    unfolding s using h[THEN conjunct1] k2 by simp
  have k4: "fst (getHistory 0 (script tracked)) \<noteq> history (machines (script tracked) 0)"
    unfolding s using h[THEN conjunct2, THEN conjunct2, THEN conjunct1] by simp
  have k5: "historyCopy 0 (overwrite (fst (getHistory 0 (script tracked)))
                    (historyCopy 0 (script tracked) @ [''FAKE''])
                    (snd (getHistory 0 (script tracked)))) = [''A'', ''B'', ''C'']"
    using h[THEN conjunct2, THEN conjunct2, THEN conjunct2, THEN conjunct1, THEN spec,
            of "historyCopy 0 (script tracked) @ [''FAKE'']"] k1
    unfolding s by simp
  have k7: "journal firingRuntime firingAccount 0 selfDriving (newStateMachine 0 (emptyStore [])) =
              [''A'', ''B'']"
    by (simp add: selfDriving_def firingRuntime_def firingAccount_def silent_def dropAnswer_def
                  startEntries_def triggerEntries_def transitionEntries_def updateEntries_def
                  entersOpt_def engine_defs fixture_defs)
  have k6: "historyCopy 0 (run firingRuntime 0 selfDriving (newStateMachine 0 (emptyStore []))) =
              [''A'', ''B'']"
    using history_entered_and_copied[OF accounted_firingRuntime steady_True,
      where rs = selfDriving and ?w0.0 = "emptyStore []", OF _ refl, THEN conjunct1] k7
    by simp
  have k8: "fst (invoke throwingRuntime 0 (Start ''A'') faultyMachine) =
              Threw (ApplicationError ''enter failed'')"
    by (simp add: faulty_def faultyMachine_def throwingRuntime_def engine_defs fixture_defs)
  have k10: "journal throwingRuntime silent 0 [AddState faulty, Start ''A'']
               (newStateMachine 0 (emptyStore ())) = [''A'']"
    by (simp add: faulty_def throwingRuntime_def silent_def startEntries_def entersOpt_def
                  engine_defs fixture_defs)
  have k9: "historyCopy 0 (run throwingRuntime 0 [AddState faulty, Start ''A'']
                            (newStateMachine 0 (emptyStore ()))) = [''A'']"
    using history_entered_and_copied[OF accounted_throwingRuntime steady_True,
      where rs = "[AddState faulty, Start ''A'']" and ?w0.0 = "emptyStore ()", OF _ refl,
      THEN conjunct1]
    unfolding k10 by simp
  have ap: "apart (newStateMachine EW twoMachines)"
    by (simp add: apart_def twoMachines_def newStateMachine_def emptyStore_def)
  have k12: "journal (crossingRuntime wholeNumbers) (lightAccount wholeNumbers EW) EW eastWestAlone
       (newStateMachine EW twoMachines) = [''RED'', ''GREEN'', ''YELLOW'', ''RED'']"
    by (simp add: eastWestAlone_def twoMachines_def lightAccount_def silent_def wholeNumbers_def inRange_def
                  startEntries_def triggerEntries_def transitionEntries_def updateEntries_def
                  entersOpt_def innerRuntime_def crossingRuntime_def lightState_def lightRules_def
                  canGoGreen_def setTimer_def emptyStore_def engine_defs)
  have k11: "historyCopy EW (run (crossingRuntime wholeNumbers) EW eastWestAlone
                              (newStateMachine EW twoMachines)) =
               [''RED'', ''GREEN'', ''YELLOW'', ''RED'']"
    using history_entered_and_copied[OF accounted_crossingRuntime[of wholeNumbers EW] steady_apart ap refl,
      where rs = eastWestAlone, THEN conjunct1]
    unfolding k12 .
  let ?v = "snd (update (crossingRuntime wholeNumbers) NS (Whole 5000) redWaiting)"
  have k13: "getCurrentState NS ?v = Inr ''RED''"
    and k14: "historyCopy EW ?v = [''RED'']"
    and hv: "housed EW ?v \<and> apart ?v"
    and ev: "entries (crossingRuntime wholeNumbers) (lightAccount wholeNumbers EW) EW
               (Update (Whole 5000)) ?v = [''GREEN'']"
    by (simp_all add: redWaiting_def started_def historyCopy_def housed_def apart_def
                      lightAccount_def silent_def wholeNumbers_def inRange_def
                      startEntries_def triggerEntries_def transitionEntries_def updateEntries_def
                      entersOpt_def innerRuntime_def crossingRuntime_def lightState_def lightRules_def
                      andThen_def setupTrafficLights_def newIntersectionController_def
                      setRunning_def startController_def handlePedestrianRequests_def
                      servePedestrian_def updateController_def canGoGreen_def setTimer_def
                      emptyStore_def engine_defs)
  have k15: "historyCopy EW (snd (invoke (crossingRuntime wholeNumbers) EW (Update (Whole 5000)) ?v)) =
               [''RED'', ''GREEN'']"
    using history_entered_and_copied[OF accounted_crossingRuntime[of wholeNumbers EW] steady_apart ap refl,
      where rs = eastWestAlone, THEN conjunct2, THEN conjunct2, THEN conjunct2, THEN conjunct2,
      THEN spec, THEN spec, THEN mp, OF hv, of "Update (Whole 5000)"]
    unfolding k14 ev by simp
  show ?thesis
    by (intro conjI) (fact k1 k2 k3 k4 k5 k6 k7 k8 k9 k10 k11 k12 k13 k14 k15)+
qed

subsection \<open>Current state and history agree\<close>

lemma agrees_eq:
  "agrees this w =
     (case currentState (machines w this) of
        None \<Rightarrow> arrays w (history (machines w this)) = []
      | Some cs \<Rightarrow> arrays w (history (machines w this)) \<noteq> [] \<and>
                   last (arrays w (history (machines w this))) = name cs)"
  by (simp add: agrees_def historyCopy_eq getCurrentState_def split: option.splits)

lemma intact_sameObjects: "sameObjects w w' \<Longrightarrow> intact this w \<Longrightarrow> intact this w'"
  by (auto simp: intact_def agrees_eq housed_def sameObjects_def split: option.splits)

lemma keepsIntact_call:
  "keepsIntact rt this \<Longrightarrow> intact this w \<Longrightarrow> intact this (snd (call rt c w))"
  by (simp add: keepsIntact_def)

lemma keepsIntact_callUpdate:
  "keepsIntact rt this \<Longrightarrow> intact this w \<Longrightarrow> intact this (snd (callUpdate rt c d w))"
  by (simp add: keepsIntact_def)

lemma keepsIntact_evalGuard:
  "keepsIntact rt this \<Longrightarrow> intact this w \<Longrightarrow> intact this (snd (evalGuard rt c w))"
  by (simp add: keepsIntact_def)

lemma quiet_keepsIntact: "quiet rt \<Longrightarrow> keepsIntact rt this"
  unfolding keepsIntact_def
  by (metis intact_sameObjects quiet_def)

lemma intact_callOpt:
  "keepsIntact rt this \<Longrightarrow> intact this w \<Longrightarrow> intact this (snd (callOpt rt f w))"
  by (cases f) (simp_all add: callOpt_def keepsIntact_call)

lemma intact_findTransition:
  "keepsIntact rt this \<Longrightarrow> intact this w \<Longrightarrow>
   intact this (snd (findTransition rt cur ev ts w))"
proof (induction ts arbitrary: w)
  case Nil
  then show ?case by simp
next
  case (Cons t ts)
  show ?case
  proof (cases "matchesEvent cur ev t")
    case False
    then show ?thesis using Cons by simp
  next
    case True
    show ?thesis
    proof (cases "tr_guard t")
      case None
      with True Cons.prems show ?thesis by simp
    next
      case (Some g)
      obtain r w' where g: "evalGuard rt g w = (r, w')" by (cases "evalGuard rt g w")
      have i: "intact this w'"
        using keepsIntact_evalGuard[OF Cons.prems, of g] g by simp
      from Cons.IH[OF Cons.prems(1) i] True Some g i show ?thesis
        by (cases r) auto
    qed
  qed
qed

lemma intact_entering:
  assumes "intact this w" and "name ns = n"
  shows "intact this (pushHistory this n (setMachine this ((machines w this)\<lparr>currentState := Some ns\<rparr>) w))"
  using assms by (simp add: intact_def agrees_eq housed_def pushHistory_def setMachine_def)

lemma intact_transitionTo:
  assumes "keepsIntact rt this" and "intact this w"
  shows "intact this (snd (transitionTo rt this n act w))"
proof (cases "states (machines w this) n")
  case None
  then show ?thesis using assms(2) by (simp add: transitionTo_def)
next
  case (Some ns)
  then have nm: "name ns = n" using assms(2) by (simp add: intact_def housed_def)
  let ?x = "case currentState (machines w this) of None \<Rightarrow> None | Some cs \<Rightarrow> onExit cs"
  obtain e1 w1 where 1: "callOpt rt ?x w = (e1, w1)" by (cases "callOpt rt ?x w")
  have i1: "intact this w1" using intact_callOpt[OF assms, of ?x] 1 by simp
  obtain e2 w2 where 2: "callOpt rt act w1 = (e2, w2)" by (cases "callOpt rt act w1")
  have i2: "intact this w2" using intact_callOpt[OF assms(1) i1, of act] 2 by simp
  let ?w4 = "pushHistory this n (setMachine this ((machines w2 this)\<lparr>currentState := Some ns\<rparr>) w2)"
  have i4: "intact this ?w4" using i2 nm by (rule intact_entering)
  obtain e5 w5 where 5: "callOpt rt (onEnter ns) ?w4 = (e5, w5)"
    by (cases "callOpt rt (onEnter ns) ?w4")
  have i5: "intact this w5" using intact_callOpt[OF assms(1) i4, of "onEnter ns"] 5 by simp
  show ?thesis
    using Some 1 2 5 i1 i2 i5
    by (cases e1; cases e2; cases e5) (simp_all add: transitionTo_def Let_def)
qed

lemma intact_trigger:
  assumes "keepsIntact rt this" and "intact this w"
  shows "intact this (snd (trigger rt this ev w))"
proof (cases "currentState (machines w this)")
  case None
  then show ?thesis using assms(2) by (simp add: trigger_def)
next
  case (Some cs)
  obtain r w1 where f: "findTransition rt (name cs) ev (transitions (machines w this)) w = (r, w1)"
    by (cases "findTransition rt (name cs) ev (transitions (machines w this)) w")
  have i1: "intact this w1"
    using intact_findTransition[OF assms, of "name cs" ev "transitions (machines w this)"] f by simp
  show ?thesis
  proof (cases r)
    case (Inl e)
    with Some f i1 show ?thesis by (simp add: trigger_def)
  next
    case (Inr found)
    show ?thesis
    proof (cases found)
      case None
      with Some f Inr i1 show ?thesis by (simp add: trigger_def)
    next
      case (Some t)
      obtain q w2 where t: "transitionTo rt this (tr_to t) (tr_action t) w1 = (q, w2)"
        by (cases "transitionTo rt this (tr_to t) (tr_action t) w1")
      have "intact this w2"
        using intact_transitionTo[OF assms(1) i1, of "tr_to t" "tr_action t"] t by simp
      with \<open>currentState (machines w this) = Some cs\<close> f Inr Some t show ?thesis
        by (cases q) (simp_all add: trigger_def)
    qed
  qed
qed

lemma intact_start:
  assumes "keepsIntact rt this" and "intact this w"
  shows "intact this (snd (start rt this n w))"
proof (cases "states (machines w this) n")
  case None
  then show ?thesis using assms(2) by (simp add: start_def)
next
  case (Some s)
  then have nm: "name s = n" using assms(2) by (simp add: intact_def housed_def)
  show ?thesis
  proof (cases "currentState (machines w this)")
    case (Some cs)
    with \<open>states (machines w this) n = Some s\<close> assms(2) show ?thesis by (simp add: start_def)
  next
    case None
    let ?w2 = "pushHistory this n (setMachine this ((machines w this)\<lparr>currentState := Some s\<rparr>) w)"
    have i2: "intact this ?w2" using assms(2) nm by (rule intact_entering)
    obtain e w3 where 3: "callOpt rt (onEnter s) ?w2 = (e, w3)"
      by (cases "callOpt rt (onEnter s) ?w2")
    have "intact this w3" using intact_callOpt[OF assms(1) i2, of "onEnter s"] 3 by simp
    with None \<open>states (machines w this) n = Some s\<close> 3 show ?thesis
      by (cases e) (simp_all add: start_def Let_def)
  qed
qed

lemma intact_invoke:
  assumes "keepsIntact rt this" and "intact this w"
  shows "intact this (snd (invoke rt this r w))"
proof (cases r)
  case (AddState s)
  then show ?thesis using assms(2)
    by (auto simp: addState_def unitReply_def intact_def agrees_eq housed_def setMachine_def Let_def
             split: option.splits)
next
  case (AddTransition t)
  then show ?thesis using assms(2)
    by (auto simp: addTransition_def unitReply_def intact_def agrees_eq housed_def setMachine_def
                   Let_def split: option.splits)
next
  case (Start n)
  then show ?thesis using intact_start[OF assms, of n]
    by (simp add: snd_unitReply)
next
  case (Trigger ev)
  then show ?thesis using intact_trigger[OF assms, of ev]
    by (simp add: snd_boolReply)
next
  case (Update d)
  show ?thesis
  proof (cases "currentState (machines w this)")
    case None
    with Update assms(2) show ?thesis by (simp add: update_def unitReply_def)
  next
    case (Some cs)
    show ?thesis
    proof (cases "onUpdate cs")
      case None
      with Some Update assms(2) show ?thesis by (simp add: update_def unitReply_def)
    next
      case (Some c)
      obtain e w1 where u: "callUpdate rt c d w = (e, w1)" by (cases "callUpdate rt c d w")
      have "intact this w1"
        using keepsIntact_callUpdate[OF assms, of c d] u by simp
      with \<open>currentState (machines w this) = Some cs\<close> Some Update u show ?thesis
        by (cases e) (simp_all add: update_def unitReply_def)
    qed
  qed
next
  case (CanTransition ev)
  show ?thesis
  proof (cases "currentState (machines w this)")
    case None
    with CanTransition assms(2) show ?thesis by (simp add: canTransition_def boolReply_def)
  next
    case (Some cs)
    obtain r' w1 where f: "findTransition rt (name cs) ev (transitions (machines w this)) w = (r', w1)"
      by (cases "findTransition rt (name cs) ev (transitions (machines w this)) w")
    have "intact this w1"
      using intact_findTransition[OF assms, of "name cs" ev "transitions (machines w this)"] f by simp
    with Some CanTransition f show ?thesis
      by (cases r') (simp_all add: canTransition_def boolReply_def)
  qed
next
  case GetCurrentState
  then show ?thesis using assms(2) by (cases "getCurrentState this w") simp_all
next
  case GetHistory
  then show ?thesis using assms(2)
    by (auto simp: getHistory_def intact_def agrees_eq housed_def Let_def split: option.splits)
qed

lemma intact_run:
  "keepsIntact rt this \<Longrightarrow> intact this w \<Longrightarrow> intact this (run rt this rs w)"
  by (induction rs arbitrary: w) (simp_all add: intact_invoke)

lemma keepsIntact_firingRuntime: "keepsIntact firingRuntime 0"
  unfolding keepsIntact_def
proof (intro conjI allI impI)
  fix c :: probe and d :: int and w :: "(nat, probe, ledger) world"
  assume i: "intact 0 w"
  have k: "keepsIntact probeRuntime 0"
    using quiet_probeRuntime by (rule quiet_keepsIntact)
  have p: "intact 0 (snd (probeCall c w))"
    using keepsIntact_call[OF k i, of c] by (simp add: probeRuntime_def)
  show "intact 0 (snd (call firingRuntime c w))"
    using p by (simp add: firingRuntime_def)
  show "intact 0 (snd (evalGuard firingRuntime c w))"
    using keepsIntact_evalGuard[OF k i, of c] by (simp add: firingRuntime_def probeRuntime_def)
  have "snd (dropAnswer r) = snd r" for r :: "(error + bool) \<times> (nat, probe, ledger) world"
    by (simp add: dropAnswer_def split: prod.splits sum.splits)
  then show "intact 0 (snd (callUpdate firingRuntime c d w))"
    using p intact_trigger[OF k i] by (cases c) (simp_all add: firingRuntime_def)
qed

lemma intact_new: "intact this (newStateMachine this w0)"
  by (simp add: intact_def agrees_eq housed_def newStateMachine_def)

text \<open>
  Claim C10. On a machine made by \<^verbatim>\<open>new StateMachine()\<close> and driven by any sequence of
  public calls, with callbacks that leave the machine intact (as callbacks do that write
  elsewhere or call the machine's own public methods), the machine has a current state
  exactly when its history is not empty, and then \<^verbatim>\<open>getCurrentState()\<close> is the last
  element of \<^verbatim>\<open>getHistory()\<close>.
\<close>

theorem current_state_is_last_of_history:
  assumes "keepsIntact rt this"
  shows "agrees this (run rt this rs (newStateMachine this w0))"
  using intact_run[OF assms intact_new, of rs w0] by (simp add: intact_def)

theorem current_state_is_last_of_history_witness:
  "agrees 0 (script tracked) \<and> getCurrentState 0 (script tracked) = Inr ''C'' \<and>
   historyCopy 0 (script tracked) = [''A'', ''B'', ''C''] \<and>
   agrees 0 (script (take 6 tracked)) \<and>
   getCurrentState 0 (script (take 6 tracked)) = Inl NotStartedError \<and>
   historyCopy 0 (script (take 6 tracked)) = [] \<and>
   agrees 0 selfDriven \<and> getCurrentState 0 selfDriven = Inr ''B'' \<and>
   historyCopy 0 selfDriven = [''A'', ''B'']"
proof -
  have k: "keepsIntact probeRuntime 0"
    using quiet_probeRuntime by (rule quiet_keepsIntact)
  have "agrees 0 (script tracked)" "agrees 0 (script (take 6 tracked))"
    using current_state_is_last_of_history[OF k, of tracked "emptyStore []"]
          current_state_is_last_of_history[OF k, of "take 6 tracked" "emptyStore []"]
    by (simp_all add: script_def)
  moreover have "agrees 0 selfDriven"
    unfolding selfDriven_def
    using keepsIntact_firingRuntime by (rule current_state_is_last_of_history)
  moreover have "getCurrentState 0 (script tracked) = Inr ''C''"
    "historyCopy 0 (script tracked) = [''A'', ''B'', ''C'']"
    "getCurrentState 0 (script (take 6 tracked)) = Inl NotStartedError"
    "historyCopy 0 (script (take 6 tracked)) = []"
    by (simp_all add: tracked_def historyCopy_def engine_defs fixture_defs)
  moreover have "getCurrentState 0 selfDriven = Inr ''B''"
    "historyCopy 0 selfDriven = [''A'', ''B'']"
    by (simp_all add: selfDriven_def firingRuntime_def dropAnswer_def historyCopy_def
                      engine_defs fixture_defs)
  ultimately show ?thesis by simp
qed

section \<open>Properties of the intersection controller\<close>

subsection \<open>The runtime of the controller\<close>

lemma findTransition_cong_rt:
  "evalGuard rt = evalGuard rt' \<Longrightarrow>
   findTransition rt cur ev ts w = findTransition rt' cur ev ts w"
  by (induction ts arbitrary: w) (auto split: option.splits prod.splits sum.splits)

lemma trigger_cong_rt:
  assumes "call rt = call rt'" and "evalGuard rt = evalGuard rt'"
  shows "trigger rt this ev w = trigger rt' this ev w"
proof -
  have c: "callOpt rt = callOpt rt'"
    using assms(1) by (intro ext) (simp add: callOpt_def split: option.splits)
  have t: "transitionTo rt = transitionTo rt'"
    by (intro ext) (unfold transitionTo_def c, rule refl)
  have f: "findTransition rt = findTransition rt'"
    by (intro ext) (rule findTransition_cong_rt[OF assms(2)])
  show ?thesis
    by (unfold trigger_def t f, rule refl)
qed

lemma quiet_found:
  assumes "quiet rt"
  shows "findTransition rt cur ev ts w = (Inr (Some t), w') \<Longrightarrow>
         t \<in> set ts \<and> matchesEvent cur ev t \<and> sameObjects w w' \<and>
         (tr_guard t = None \<or>
          (\<exists>g v. tr_guard t = Some g \<and> sameObjects w v \<and> fst (evalGuard rt g v) = Inr True))"
proof (induction ts arbitrary: w)
  case Nil
  then show ?case by simp
next
  case (Cons a ts)
  show ?case
  proof (cases "matchesEvent cur ev a")
    case False
    with Cons.prems have "findTransition rt cur ev ts w = (Inr (Some t), w')" by simp
    from Cons.IH[OF this] show ?thesis by auto
  next
    case True
    show ?thesis
    proof (cases "tr_guard a")
      case None
      with True Cons.prems show ?thesis by (auto simp: sameObjects_refl)
    next
      case (Some g)
      obtain r v where g: "evalGuard rt g w = (r, v)" by (cases "evalGuard rt g w")
      have s: "sameObjects w v" using quiet_evalGuard[OF assms, of w g] g by simp
      show ?thesis
      proof (cases r)
        case (Inl e)
        with True Some g Cons.prems show ?thesis by simp
      next
        case (Inr b)
        show ?thesis
        proof (cases b)
          case True
          with \<open>matchesEvent cur ev a\<close> Some g Inr Cons.prems have "t = a" "w' = v" by simp_all
          moreover have "fst (evalGuard rt g w) = Inr True" using g Inr True by simp
          ultimately show ?thesis
            using \<open>matchesEvent cur ev a\<close> Some s sameObjects_refl[of w] by auto
        next
          case False
          with \<open>matchesEvent cur ev a\<close> Some g Inr Cons.prems
          have "findTransition rt cur ev ts v = (Inr (Some t), w')" by simp
          from Cons.IH[OF this] s show ?thesis
            by (auto intro: sameObjects_trans)
        qed
      qed
    qed
  qed
qed

lemma findTransition_no_throw:
  assumes "\<forall>g v. \<exists>b. fst (evalGuard rt g v) = Inr b"
  shows "\<exists>r. fst (findTransition rt cur ev ts w) = Inr r"
proof (induction ts arbitrary: w)
  case Nil
  then show ?case by simp
next
  case (Cons a ts)
  show ?case
  proof (cases "matchesEvent cur ev a")
    case False
    then show ?thesis using Cons by simp
  next
    case True
    show ?thesis
    proof (cases "tr_guard a")
      case None
      with True show ?thesis by simp
    next
      case (Some g)
      obtain r v where g: "evalGuard rt g w = (r, v)" by (cases "evalGuard rt g w")
      from assms obtain b where "fst (evalGuard rt g w) = Inr b" by blast
      with g have "r = Inr b" by simp
      with True Some g Cons.IH[of v] show ?thesis by (cases b) simp_all
    qed
  qed
qed

lemma trigger_crossing_inner:
  "trigger (crossingRuntime ar) m ev w = trigger (innerRuntime ar) m ev w"
  by (rule trigger_cong_rt) (simp_all add: crossingRuntime_def innerRuntime_def)

lemma crossingGuard_answers: "\<exists>b. crossingGuard g v = (Inr b, v)"
  by (cases g) auto

lemma innerRuntime_guards_answer:
  "\<forall>g v. \<exists>b. fst (evalGuard (innerRuntime (ar :: 'n arithmetic)) g v) = Inr b"
proof (intro allI)
  fix g and v :: "'n crossing"
  obtain b where "crossingGuard g v = (Inr b, v)"
    using crossingGuard_answers by blast
  then show "\<exists>b. fst (evalGuard (innerRuntime ar) g v) = Inr b"
    by (simp add: innerRuntime_def)
qed

lemma crossingGuard_sameObjects:
  "sameObjects w v \<Longrightarrow> fst (crossingGuard g v) = fst (crossingGuard g w)"
  by (cases g) (simp_all add: canGoGreen_def getCurrentState_def sameObjects_def)

lemma rule_targets:
  "t \<in> set (lightRules m @ replicate k forceGreenRule) \<Longrightarrow> \<exists>l. tr_to t = lightName l"
proof -
  assume "t \<in> set (lightRules m @ replicate k forceGreenRule)"
  then have "tr_to t = ''GREEN'' \<or> tr_to t = ''YELLOW'' \<or> tr_to t = ''RED''"
    by (auto simp: lightRules_def forceGreenRule_def)
  then show ?thesis
    using lightName.simps by metis
qed

lemma wired_sameObjects: "sameObjects w v \<Longrightarrow> wired w \<Longrightarrow> wired v"
  by (simp add: wired_def sameObjects_def)

lemma wired_trigger:
  assumes "wired w"
  shows "\<exists>b w'. trigger (crossingRuntime ar) m ev w = (Inr b, w') \<and> wired w' \<and>
           (\<forall>p. p \<noteq> m \<longrightarrow> machines w' p = machines w p) \<and>
           (currentState (machines w' m) = currentState (machines w m) \<or>
            (\<exists>t l. t \<in> set (transitions (machines w m)) \<and> tr_event t = ev \<and>
                   tr_to t = lightName l \<and>
                   currentState (machines w' m) = Some (lightState m l) \<and>
                   (\<forall>g. tr_guard t = Some g \<longrightarrow> fst (crossingGuard g w) = Inr True)))"
proof -
  from assms have wm: "wiredAs m (machines w m)" by (simp add: wired_def)
  then obtain l0 where cur: "currentState (machines w m) = Some (lightState m l0)"
    by (auto simp: wiredAs_def)
  from wm obtain k where ts: "transitions (machines w m) = lightRules m @ replicate k forceGreenRule"
    by (auto simp: wiredAs_def)
  let ?cur = "name (lightState m l0)"
  obtain r w1 where f: "findTransition (innerRuntime ar) ?cur ev (transitions (machines w m)) w = (r, w1)"
    by (cases "findTransition (innerRuntime ar) ?cur ev (transitions (machines w m)) w")
  have s1: "sameObjects w w1"
    using quiet_findTransition[OF quiet_innerRuntime[of ar], of w ?cur ev "transitions (machines w m)"] f
    by simp
  obtain found where r: "r = Inr found"
    using findTransition_no_throw[OF innerRuntime_guards_answer[of ar], of ?cur ev "transitions (machines w m)" w] f
    by auto
  show ?thesis
  proof (cases found)
    case None
    then have "trigger (crossingRuntime ar) m ev w = (Inr False, w1)"
      unfolding trigger_crossing_inner using cur f r by (simp add: trigger_def)
    moreover have "wired w1" using s1 assms by (rule wired_sameObjects)
    moreover have "machines w1 = machines w" using s1 by (simp add: sameObjects_def)
    ultimately show ?thesis by auto
  next
    case (Some t)
    with f r have ft: "findTransition (innerRuntime ar) ?cur ev (transitions (machines w m)) w = (Inr (Some t), w1)"
      by simp
    from quiet_found[OF quiet_innerRuntime[of ar] ft]
    have tin: "t \<in> set (transitions (machines w m))" and me: "matchesEvent ?cur ev t"
      and gd: "tr_guard t = None \<or>
        (\<exists>g v. tr_guard t = Some g \<and> sameObjects w v \<and> fst (evalGuard (innerRuntime ar) g v) = Inr True)"
      by auto
    from tin ts obtain l where l: "tr_to t = lightName l" using rule_targets by metis
    have reg: "states (machines w1 m) (tr_to t) = Some (lightState m l)"
      using wm s1 l by (simp add: wiredAs_def sameObjects_def)
    from quiet_transitionTo[OF quiet_innerRuntime[of ar] reg, of "tr_action t"]
    obtain w' where tt: "transitionTo (innerRuntime ar) m (tr_to t) (tr_action t) w1 = (Inr (), w')"
      and mw: "machines w' = (machines w1)(m := (machines w1 m)\<lparr>currentState := Some (lightState m l)\<rparr>)"
      by blast
    have m1: "machines w1 = machines w" using s1 by (simp add: sameObjects_def)
    have "trigger (crossingRuntime ar) m ev w = (Inr True, w')"
      unfolding trigger_crossing_inner using cur ft tt by (simp add: trigger_def)
    moreover have "wired w'"
      unfolding wired_def
    proof
      fix p
      show "wiredAs p (machines w' p)"
      proof (cases "p = m")
        case True
        with wm mw m1 show ?thesis by (auto simp: wiredAs_def)
      next
        case False
        with assms mw m1 show ?thesis by (simp add: wired_def)
      qed
    qed
    moreover have "\<forall>p. p \<noteq> m \<longrightarrow> machines w' p = machines w p"
      using mw m1 by simp
    moreover have "currentState (machines w' m) = Some (lightState m l)"
      using mw by simp
    moreover have "tr_event t = ev" using me by (simp add: matchesEvent_def)
    moreover have "\<forall>g. tr_guard t = Some g \<longrightarrow> fst (crossingGuard g w) = Inr True"
    proof (intro allI impI)
      fix g assume "tr_guard t = Some g"
      with gd obtain v where "sameObjects w v" "fst (evalGuard (innerRuntime ar) g v) = Inr True"
        by auto
      then show "fst (crossingGuard g w) = Inr True"
        using crossingGuard_sameObjects[of w v g] by (simp add: innerRuntime_def)
    qed
    ultimately show ?thesis using tin l by blast
  qed
qed

subsection \<open>Triggers on a wired crossing\<close>

lemma wired_env [simp]: "wired (w\<lparr>env := e\<rparr>) = wired w"
  by (simp add: wired_def)

lemma bothGreen_env [simp]: "bothGreen (w\<lparr>env := e\<rparr>) = bothGreen w"
  by (simp add: bothGreen_def getCurrentState_def)

lemma wired_current:
  "wired w \<Longrightarrow> \<exists>l. currentState (machines w m) = Some (lightState m l)"
  by (simp add: wired_def wiredAs_def)

lemma wired_registered:
  "wired w \<Longrightarrow> states (machines w m) (lightName l) = Some (lightState m l)"
  by (simp add: wired_def wiredAs_def)

lemma bothGreen_iff:
  "bothGreen w \<longleftrightarrow> (\<forall>m. getCurrentState m w = Inr ''GREEN'')"
proof
  assume "bothGreen w"
  then show "\<forall>m. getCurrentState m w = Inr ''GREEN''"
    by (auto simp: bothGreen_def intro: axis.induct)
next
  assume "\<forall>m. getCurrentState m w = Inr ''GREEN''"
  then show "bothGreen w" by (simp add: bothGreen_def)
qed

lemma not_bothGreen: "getCurrentState m w \<noteq> Inr ''GREEN'' \<Longrightarrow> \<not> bothGreen w"
  by (auto simp: bothGreen_iff)

lemma green_rule:
  assumes "t \<in> set (lightRules m @ replicate k forceGreenRule)"
      and "tr_event t = ''TIMER_EXPIRED''" and "tr_to t = ''GREEN''"
  shows "tr_guard t = Some (case m of NS \<Rightarrow> CanNSGoGreen | EW \<Rightarrow> CanEWGoGreen)"
  using assms by (auto simp: lightRules_def forceGreenRule_def)

lemma guard_means_peer_red:
  assumes "fst (crossingGuard (case m of NS \<Rightarrow> CanNSGoGreen | EW \<Rightarrow> CanEWGoGreen) w) = Inr True"
      and "wired w"
  shows "getCurrentState (opposite m) w = Inr ''RED''"
proof -
  from wired_current[OF assms(2), of "opposite m"] obtain l
    where "currentState (machines w (opposite m)) = Some (lightState (opposite m) l)" by blast
  then show ?thesis
    using assms(1)
    by (cases m) (simp_all add: canGoGreen_def getCurrentState_def)
qed

lemma trigger_timer_safe:
  assumes "wired w" and "\<not> bothGreen w"
  shows "\<exists>b w'. trigger (crossingRuntime ar) m ''TIMER_EXPIRED'' w = (Inr b, w') \<and> wired w' \<and>
           \<not> bothGreen w'"
proof -
  from wired_trigger[OF assms(1), of ar m "''TIMER_EXPIRED''"]
  obtain b w' where tr: "trigger (crossingRuntime ar) m ''TIMER_EXPIRED'' w = (Inr b, w')"
    and w': "wired w'"
    and oth: "\<forall>p. p \<noteq> m \<longrightarrow> machines w' p = machines w p"
    and ch: "currentState (machines w' m) = currentState (machines w m) \<or>
            (\<exists>t l. t \<in> set (transitions (machines w m)) \<and> tr_event t = ''TIMER_EXPIRED'' \<and>
                   tr_to t = lightName l \<and>
                   currentState (machines w' m) = Some (lightState m l) \<and>
                   (\<forall>g. tr_guard t = Some g \<longrightarrow> fst (crossingGuard g w) = Inr True))"
    by blast
  have "\<not> bothGreen w'"
  proof (cases "currentState (machines w' m) = currentState (machines w m)")
    case True
    have "getCurrentState p w' = getCurrentState p w" for p
      using True oth by (cases "p = m") (simp_all add: getCurrentState_def)
    with assms(2) show ?thesis by (simp add: bothGreen_def)
  next
    case False
    with ch obtain t l where tin: "t \<in> set (transitions (machines w m))"
      and ev: "tr_event t = ''TIMER_EXPIRED''" and to: "tr_to t = lightName l"
      and cur: "currentState (machines w' m) = Some (lightState m l)"
      and gd: "\<forall>g. tr_guard t = Some g \<longrightarrow> fst (crossingGuard g w) = Inr True"
      by blast
    from assms(1) obtain k where ts: "transitions (machines w m) = lightRules m @ replicate k forceGreenRule"
      by (auto simp: wired_def wiredAs_def)
    show ?thesis
    proof (cases l)
      case Green
      with to have "tr_to t = ''GREEN''" by simp
      from green_rule[OF tin[unfolded ts] ev this] gd
      have "fst (crossingGuard (case m of NS \<Rightarrow> CanNSGoGreen | EW \<Rightarrow> CanEWGoGreen) w) = Inr True"
        by simp
      from guard_means_peer_red[OF this assms(1)]
      have "getCurrentState (opposite m) w = Inr ''RED''" .
      moreover have "opposite m \<noteq> m" by (cases m) simp_all
      ultimately have "getCurrentState (opposite m) w' = Inr ''RED''"
        using oth by (simp add: getCurrentState_def)
      then show ?thesis by (intro not_bothGreen[of "opposite m"]) simp
    next
      case Red
      with cur have "getCurrentState m w' = Inr ''RED''"
        by (simp add: getCurrentState_def lightState_def)
      then show ?thesis by (intro not_bothGreen[of m]) simp
    next
      case Yellow
      with cur have "getCurrentState m w' = Inr ''YELLOW''"
        by (simp add: getCurrentState_def lightState_def)
      then show ?thesis by (intro not_bothGreen[of m]) simp
    qed
  qed
  with tr w' show ?thesis by blast
qed

lemma trigger_emergency_red:
  assumes "wired w"
  shows "\<exists>w'. trigger (crossingRuntime ar) m ''EMERGENCY_OVERRIDE'' w = (Inr True, w') \<and> wired w' \<and>
           getCurrentState m w' = Inr ''RED''"
proof -
  from wired_trigger[OF assms, of ar m "''EMERGENCY_OVERRIDE''"]
  obtain b w' where tr: "trigger (crossingRuntime ar) m ''EMERGENCY_OVERRIDE'' w = (Inr b, w')"
    and w': "wired w'"
    and ch: "currentState (machines w' m) = currentState (machines w m) \<or>
            (\<exists>t l. t \<in> set (transitions (machines w m)) \<and> tr_event t = ''EMERGENCY_OVERRIDE'' \<and>
                   tr_to t = lightName l \<and>
                   currentState (machines w' m) = Some (lightState m l) \<and>
                   (\<forall>g. tr_guard t = Some g \<longrightarrow> fst (crossingGuard g w) = Inr True))"
    by blast
  from wired_current[OF assms, of m] obtain l0
    where cur: "currentState (machines w m) = Some (lightState m l0)" by blast
  from assms obtain k where ts: "transitions (machines w m) = lightRules m @ replicate k forceGreenRule"
    by (auto simp: wired_def wiredAs_def)
  let ?r = "\<lparr>tr_from = ''*'', tr_to = ''RED'', tr_event = ''EMERGENCY_OVERRIDE'',
             tr_guard = None, tr_action = None\<rparr> :: closure Transition"
  have f: "findTransition (innerRuntime ar) (name (lightState m l0)) ''EMERGENCY_OVERRIDE''
             (transitions (machines w m)) w = (Inr (Some ?r), w)"
    unfolding ts findTransition_append
    by (simp add: lightRules_def matchesEvent_def)
  have reg: "states (machines w m) (tr_to ?r) = Some (lightState m Red)"
    using wired_registered[OF assms, of m Red] by simp
  from quiet_transitionTo[OF quiet_innerRuntime[of ar] reg, of "tr_action ?r"]
  obtain v where tt: "transitionTo (innerRuntime ar) m (tr_to ?r) (tr_action ?r) w = (Inr (), v)"
    and mv: "machines v = (machines w)(m := (machines w m)\<lparr>currentState := Some (lightState m Red)\<rparr>)"
    by blast
  have "trigger (crossingRuntime ar) m ''EMERGENCY_OVERRIDE'' w = (Inr True, v)"
    unfolding trigger_crossing_inner using cur f tt by (simp add: trigger_def)
  with tr have "b = True" "w' = v" by simp_all
  moreover have "getCurrentState m v = Inr ''RED''"
    using mv by (simp add: getCurrentState_def lightState_def)
  ultimately show ?thesis using tr w' by simp
qed

subsection \<open>What can happen keeps the crossing safe\<close>

lemma andThen_Inr: "f w = (Inr x, w1) \<Longrightarrow> andThen f g w = g w1"
  by (simp add: andThen_def)

lemma update_safe:
  assumes "wired w" and "\<not> bothGreen w"
  shows "\<exists>w'. update (crossingRuntime ar) m d w = (Inr (), w') \<and> wired w' \<and> \<not> bothGreen w'"
proof -
  from wired_current[OF assms(1), of m] obtain l
    where cur: "currentState (machines w m) = Some (lightState m l)" by blast
  let ?w1 = "setTimer m l (addition ar (timer (env w) m l) d) w"
  have w1: "wired ?w1" "\<not> bothGreen ?w1" using assms by (simp_all add: setTimer_def)
  from trigger_timer_safe[OF w1, of ar m] obtain b w'
    where tr: "trigger (innerRuntime ar) m ''TIMER_EXPIRED'' ?w1 = (Inr b, w')"
      and ok: "wired w'" "\<not> bothGreen w'"
    unfolding trigger_crossing_inner by blast
  have "crossingUpdate ar (LightUpdate m l) d w = (None, w') \<or>
        crossingUpdate ar (LightUpdate m l) d w = (None, ?w1)"
    using tr by (simp add: Let_def)
  then have "\<exists>v. crossingUpdate ar (LightUpdate m l) d w = (None, v) \<and> wired v \<and> \<not> bothGreen v"
    using ok w1 by auto
  then obtain v where "crossingUpdate ar (LightUpdate m l) d w = (None, v)" "wired v" "\<not> bothGreen v"
    by blast
  then show ?thesis
    using cur by (simp add: update_def lightState_def crossingRuntime_def)
qed

lemma start_again:
  assumes "wired w"
  shows "snd (startController ar w) = w"
proof -
  from wired_current[OF assms, of NS] obtain l
    where "currentState (machines w NS) = Some (lightState NS l)" by blast
  moreover have "states (machines w NS) ''GREEN'' = Some (lightState NS Green)"
    using wired_registered[OF assms, of NS Green] by simp
  ultimately have "start (crossingRuntime ar) NS ''GREEN'' w = (Inl AlreadyStartedError, w)"
    by (simp add: start_def)
  then show ?thesis by (simp add: startController_def andThen_def)
qed

lemma addTransition_force:
  assumes "wired w"
  shows "\<exists>w'. addTransition m forceGreenRule w = (Inr (), w') \<and> wired w' \<and>
           (\<forall>p. getCurrentState p w' = getCurrentState p w)"
proof -
  let ?w' = "setMachine m ((machines w m)\<lparr>transitions := transitions (machines w m) @ [forceGreenRule]\<rparr>) w"
  have "states (machines w m) ''GREEN'' = Some (lightState m Green)"
    using wired_registered[OF assms, of m Green] by simp
  then have 1: "addTransition m forceGreenRule w = (Inr (), ?w')"
    by (simp add: addTransition_def forceGreenRule_def Let_def)
  have 2: "wired ?w'"
    unfolding wired_def
  proof
    fix p
    from assms have wp: "wiredAs p (machines w p)" by (simp add: wired_def)
    show "wiredAs p (machines ?w' p)"
    proof (cases "p = m")
      case False
      with wp show ?thesis by (simp add: setMachine_def)
    next
      case True
      from wp obtain k where "transitions (machines w p) = lightRules p @ replicate k forceGreenRule"
        by (auto simp: wiredAs_def)
      then have "transitions (machines w p) @ [forceGreenRule] =
                 lightRules p @ replicate (Suc k) forceGreenRule"
        by (simp add: replicate_append_same)
      with wp True show ?thesis
        by (auto simp: wiredAs_def setMachine_def simp del: replicate_Suc)
    qed
  qed
  have 3: "\<forall>p. getCurrentState p ?w' = getCurrentState p w"
    by (simp add: getCurrentState_def setMachine_def)
  from 1 2 3 show ?thesis by blast
qed

lemma addEmergencyTransitions_safe:
  assumes "wired w"
  shows "wired (snd (addEmergencyTransitions w)) \<and>
         (\<forall>p. getCurrentState p (snd (addEmergencyTransitions w)) = getCurrentState p w)"
proof -
  from addTransition_force[OF assms, of NS] obtain w1
    where 1: "addTransition NS forceGreenRule w = (Inr (), w1)" and w1: "wired w1"
      and c1: "\<forall>p. getCurrentState p w1 = getCurrentState p w" by blast
  from addTransition_force[OF w1, of EW] obtain w2
    where 2: "addTransition EW forceGreenRule w1 = (Inr (), w2)" and w2: "wired w2"
      and c2: "\<forall>p. getCurrentState p w2 = getCurrentState p w1" by blast
  have "snd (addEmergencyTransitions w) = w2"
    using 1 2 by (simp add: addEmergencyTransitions_def andThen_def tryCatch_def)
  with w2 c1 c2 show ?thesis by simp
qed

lemma emergencyVehicle_safe:
  assumes "wired w" and "\<not> bothGreen w"
  shows "wired (snd (emergencyVehicle ar d w)) \<and> \<not> bothGreen (snd (emergencyVehicle ar d w))"
proof (cases "isRunning (env w)")
  case False
  with assms show ?thesis by (simp add: emergencyVehicle_def)
next
  case True
  from trigger_emergency_red[OF assms(1), of ar d] obtain w1
    where 1: "trigger (crossingRuntime ar) d ''EMERGENCY_OVERRIDE'' w = (Inr True, w1)"
      and w1: "wired w1" by blast
  from wired_trigger[OF w1, of ar d "''FORCE_GREEN''"] obtain b w2
    where 2: "trigger (crossingRuntime ar) d ''FORCE_GREEN'' w1 = (Inr b, w2)"
      and w2: "wired w2" by blast
  from trigger_emergency_red[OF w2, of ar "opposite d"] obtain w3
    where 3: "trigger (crossingRuntime ar) (opposite d) ''EMERGENCY_OVERRIDE'' w2 = (Inr True, w3)"
      and w3: "wired w3" and red: "getCurrentState (opposite d) w3 = Inr ''RED''" by blast
  have e: "emergencyVehicle ar d w = addEmergencyTransitions w3"
    using True 1 2 3 by (simp add: emergencyVehicle_def andThen_Inr)
  from addEmergencyTransitions_safe[OF w3] red
  have "wired (snd (addEmergencyTransitions w3))"
    "getCurrentState (opposite d) (snd (addEmergencyTransitions w3)) = Inr ''RED''"
    by simp_all
  then show ?thesis
    unfolding e using not_bothGreen[of "opposite d" "snd (addEmergencyTransitions w3)"] by simp
qed

lemma timeoutFires_safe:
  assumes "wired w" and "\<not> bothGreen w"
  shows "wired (snd (timeoutFires ar k w)) \<and> \<not> bothGreen (snd (timeoutFires ar k w))"
proof (cases "k < length (timeouts (env w))")
  case False
  with assms show ?thesis by (simp add: timeoutFires_def)
next
  case True
  let ?w1 = "w\<lparr>env := (env w)\<lparr>timeouts := take k (timeouts (env w)) @ drop (Suc k) (timeouts (env w))\<rparr>\<rparr>"
  have w1: "wired ?w1" "\<not> bothGreen ?w1" using assms by simp_all
  from trigger_timer_safe[OF w1, of ar "timeouts (env w) ! k"] obtain b w'
    where tr: "trigger (crossingRuntime ar) (timeouts (env w) ! k) ''TIMER_EXPIRED'' ?w1 = (Inr b, w')"
      and ok: "wired w'" "\<not> bothGreen w'" by blast
  have "snd (timeoutFires ar k w) = w' \<or> snd (timeoutFires ar k w) = ?w1"
    using True tr by (simp add: timeoutFires_def Let_def andThen_def)
  with ok w1 show ?thesis by auto
qed

lemma updateController_safe:
  assumes "wired w" and "\<not> bothGreen w"
  shows "wired (snd (updateController (ar :: 'n arithmetic) d w)) \<and>
         \<not> bothGreen (snd (updateController ar d w))"
proof (cases "isRunning (env w)")
  case False
  with assms show ?thesis by (simp add: updateController_def)
next
  case True
  from update_safe[OF assms, of ar NS d] obtain w1
    where 1: "update (crossingRuntime ar) NS d w = (Inr (), w1)"
      and w1: "wired w1" "\<not> bothGreen w1" by blast
  from update_safe[OF w1, of ar EW d] obtain w2
    where 2: "update (crossingRuntime ar) EW d w1 = (Inr (), w2)"
      and w2: "wired w2" "\<not> bothGreen w2" by blast
  have "snd (updateController ar d w) = servePedestrian EW (servePedestrian NS w2)"
    using True 1 2 by (simp add: updateController_def andThen_Inr handlePedestrianRequests_def)
  moreover have "wired (servePedestrian p v) = wired v"
    "bothGreen (servePedestrian p v) = bothGreen v" for p and v :: "'n crossing"
    by (simp_all add: servePedestrian_def split: sum.splits)
  ultimately show ?thesis using w2 by simp
qed

lemma happen_safe:
  assumes "wired w" and "\<not> bothGreen w"
  shows "wired (snd (happen ar h w)) \<and> \<not> bothGreen (snd (happen ar h w))"
proof (cases h)
  case StartController
  with assms start_again[OF assms(1)] show ?thesis by simp
next
  case StopController
  with assms show ?thesis by (simp add: stopController_def setRunning_def)
next
  case (UpdateController d)
  with updateController_safe[OF assms] show ?thesis by simp
next
  case (PedestrianButtonPressed d)
  with assms show ?thesis by (simp add: pedestrianButtonPressed_def)
next
  case (EmergencyVehicle d)
  with emergencyVehicle_safe[OF assms] show ?thesis by simp
next
  case (TimeoutFires k)
  with timeoutFires_safe[OF assms] show ?thesis by simp
qed

lemma happenAll_safe:
  "wired w \<Longrightarrow> \<not> bothGreen w \<Longrightarrow>
   wired (happenAll ar hs w) \<and> \<not> bothGreen (happenAll ar hs w)"
  by (induction hs arbitrary: w) (simp_all add: happen_safe)

lemmas crossing_defs = innerRuntime_def crossingRuntime_def lightState_def lightRules_def
  forceGreenRule_def andThen_def tryCatch_def setupTrafficLights_def
  newIntersectionController_def setRunning_def startController_def stopController_def
  servePedestrian_def handlePedestrianRequests_def updateController_def
  pedestrianButtonPressed_def addEmergencyTransitions_def emergencyVehicle_def
  timeoutFires_def canGoGreen_def emptyStore_def setTimer_def

lemma started_machines:
  "machines (started ar) NS =
     \<lparr>currentState = Some (lightState NS Green),
      states = [''RED'' \<mapsto> lightState NS Red, ''GREEN'' \<mapsto> lightState NS Green,
                ''YELLOW'' \<mapsto> lightState NS Yellow],
      transitions = lightRules NS, history = 0\<rparr>"
  "machines (started ar) EW =
     \<lparr>currentState = Some (lightState EW Red),
      states = [''RED'' \<mapsto> lightState EW Red, ''GREEN'' \<mapsto> lightState EW Green,
                ''YELLOW'' \<mapsto> lightState EW Yellow],
      transitions = lightRules EW, history = 1\<rparr>"
  by (simp_all add: started_def engine_defs crossing_defs)

lemma started_ok:
  "fst (newIntersectionController ar) = Inr ()"
  "fst (startController ar (snd (newIntersectionController ar))) = Inr ()"
  by (simp_all add: engine_defs crossing_defs)

lemma started_wired: "wired (started ar)"
  unfolding wired_def
proof
  fix m
  have l: "(\<forall>l. P l) = (P Red \<and> P Green \<and> P Yellow)" for P :: "light \<Rightarrow> bool"
    by (metis light.exhaust)
  show "wiredAs m (machines (started ar) m)"
  proof (cases m)
    case NS
    have "\<exists>k. lightRules NS = lightRules NS @ replicate k forceGreenRule"
      by (rule exI[of _ 0]) simp
    moreover have "\<exists>l. Some (lightState NS Green) = Some (lightState NS l)" by blast
    ultimately show ?thesis
      unfolding NS wiredAs_def started_machines by (simp add: l)
  next
    case EW
    have "\<exists>k. lightRules EW = lightRules EW @ replicate k forceGreenRule"
      by (rule exI[of _ 0]) simp
    moreover have "\<exists>l. Some (lightState EW Red) = Some (lightState EW l)" by blast
    ultimately show ?thesis
      unfolding EW wiredAs_def started_machines by (simp add: l)
  qed
qed

lemma started_safe: "\<not> bothGreen (started ar)"
  by (simp add: bothGreen_def getCurrentState_def started_machines lightState_def)

text \<open>
  Claim C4. From \<^verbatim>\<open>start()\<close> on, after any sequence of updates, pedestrian requests
  and emergency-vehicle calls (and of stops, repeated starts and pending timeout
  callbacks running in between), the machines \<^verbatim>\<open>northSouth\<close> and \<^verbatim>\<open>eastWest\<close> are
  not both in state \<^verbatim>\<open>GREEN\<close>; so in particular at the end of every update tick. This
  holds whatever the elapsed times are and whatever the arithmetic of the timers is.
\<close>

theorem never_both_green:
  "\<not> (getCurrentState NS (happenAll ar hs (started ar)) = Inr ''GREEN'' \<and>
      getCurrentState EW (happenAll ar hs (started ar)) = Inr ''GREEN'')"
  using happenAll_safe[OF started_wired[of ar] started_safe[of ar], of ar hs] by (simp add: bothGreen_def)

theorem never_both_green_witness:
  "fst (newIntersectionController wholeNumbers) = Inr () \<and>
   fst (startController wholeNumbers (snd (newIntersectionController wholeNumbers))) = Inr () \<and>
   getCurrentState NS (started wholeNumbers) = Inr ''GREEN'' \<and>
   getCurrentState EW (started wholeNumbers) = Inr ''RED'' \<and>
   getCurrentState NS (happenAll wholeNumbers [UpdateController (Whole 25000), UpdateController (Whole 5000)]
                         (started wholeNumbers)) = Inr ''RED'' \<and>
   getCurrentState EW (happenAll wholeNumbers [UpdateController (Whole 25000), UpdateController (Whole 5000)]
                         (started wholeNumbers)) = Inr ''GREEN'' \<and>
   getCurrentState NS (happenAll wholeNumbers [EmergencyVehicle EW, EmergencyVehicle NS]
                         (started wholeNumbers)) = Inr ''GREEN'' \<and>
   getCurrentState EW (happenAll wholeNumbers [EmergencyVehicle EW, EmergencyVehicle NS]
                         (started wholeNumbers)) = Inr ''RED''"
  using never_both_green[of wholeNumbers "[UpdateController (Whole 25000), UpdateController (Whole 5000)]"]
        never_both_green[of wholeNumbers "[EmergencyVehicle EW, EmergencyVehicle NS]"]
        started_ok[of wholeNumbers]
  by (simp add: started_def wholeNumbers_def inRange_def engine_defs crossing_defs)

subsection \<open>The timers of the light states\<close>

text \<open>
  Claim C5, as stated, fails in its last part. After \<^verbatim>\<open>start()\<close> and
  \<^verbatim>\<open>update(30000)\<close> the timer of the red state of \<^verbatim>\<open>eastWest\<close> has reached its
  duration and the machine is still \<^verbatim>\<open>RED\<close> (its guard refused, \<^verbatim>\<open>northSouth\<close> being
  \<^verbatim>\<open>YELLOW\<close>), no timeout is pending; the next tick, \<^verbatim>\<open>update(5000)\<close>, moves it to
  \<^verbatim>\<open>GREEN\<close>: \<^verbatim>\<open>onUpdate\<close> has called \<^verbatim>\<open>trigger\<close> again on a tick past the threshold.
  Every number of this run is a whole number of milliseconds, at most 35000.
\<close>

theorem retriggered_past_threshold:
  "timer (env redWaiting) EW Red = Whole 30000 \<and>
   literal wholeNumbers (duration Red) = Whole 30000 \<and>
   getCurrentState EW (started wholeNumbers) = Inr ''RED'' \<and>
   getCurrentState EW redWaiting = Inr ''RED'' \<and>
   historyCopy EW redWaiting = [''RED''] \<and>
   timeouts (env redWaiting) = [] \<and>
   getCurrentState EW (snd (updateController wholeNumbers (Whole 5000) redWaiting)) = Inr ''GREEN'' \<and>
   historyCopy EW (snd (updateController wholeNumbers (Whole 5000) redWaiting)) = [''RED'', ''GREEN''] \<and>
   timer (env (snd (updateController wholeNumbers (Whole 5000) redWaiting))) EW Red = Whole 35000"
  by (simp add: redWaiting_def started_def historyCopy_def wholeNumbers_def inRange_def engine_defs crossing_defs)

text \<open>
  Claim C5, amended. The \<^verbatim>\<open>onEnter\<close> of a light state sets its timer to the number
  \<^verbatim>\<open>0\<close>. Its \<^verbatim>\<open>onUpdate\<close> adds \<^verbatim>\<open>deltaTime\<close> to the timer and, on every tick on
  which the timer is then at or above the duration, calls \<^verbatim>\<open>trigger('TIMER_EXPIRED')\<close>
  on the owning machine, and returns what that call leaves. Nothing remembers that the
  threshold has been crossed: when that \<^verbatim>\<open>trigger\<close> has made no transition and changed
  nothing, the next tick after which the timer is at or above the duration calls
  \<^verbatim>\<open>trigger\<close> again. Sum, comparison and the numbers of the literals are those of the
  arithmetic \<open>ar\<close>, whichever it is.
\<close>

theorem timer_behaviour:
  "call (crossingRuntime ar) (LightEnter m l) w = (None, setTimer m l (literal ar 0) w) \<and>
   timer (env (setTimer m l v w)) m l = v \<and>
   callUpdate (crossingRuntime ar) (LightUpdate m l) d w =
     (if greaterEq ar (addition ar (timer (env w) m l) d) (literal ar (duration l))
      then dropAnswer (trigger (crossingRuntime ar) m ''TIMER_EXPIRED''
                         (setTimer m l (addition ar (timer (env w) m l) d) w))
      else (None, setTimer m l (addition ar (timer (env w) m l) d) w)) \<and>
   (greaterEq ar (addition ar (timer (env w) m l) d) (literal ar (duration l)) \<and>
    trigger (crossingRuntime ar) m ''TIMER_EXPIRED''
        (setTimer m l (addition ar (timer (env w) m l) d) w) =
      (Inr False, setTimer m l (addition ar (timer (env w) m l) d) w) \<and>
    greaterEq ar (addition ar (addition ar (timer (env w) m l) d) d') (literal ar (duration l)) \<longrightarrow>
      callUpdate (crossingRuntime ar) (LightUpdate m l) d'
          (snd (callUpdate (crossingRuntime ar) (LightUpdate m l) d w)) =
        dropAnswer (trigger (crossingRuntime ar) m ''TIMER_EXPIRED''
                      (setTimer m l (addition ar (addition ar (timer (env w) m l) d) d') w)))"
proof -
  have t: "timer (env (setTimer m l v w)) m l = v" for v and w :: "'a crossing"
    by (simp add: setTimer_def)
  have s: "setTimer m l v (setTimer m l u w) = setTimer m l v w" for u v and w :: "'a crossing"
    by (simp add: setTimer_def)
  have u: "callUpdate (crossingRuntime ar) (LightUpdate m l) d w =
     (if greaterEq ar (addition ar (timer (env w) m l) d) (literal ar (duration l))
      then dropAnswer (trigger (crossingRuntime ar) m ''TIMER_EXPIRED''
                         (setTimer m l (addition ar (timer (env w) m l) d) w))
      else (None, setTimer m l (addition ar (timer (env w) m l) d) w))" for d w
    unfolding trigger_crossing_inner
    by (simp add: crossingRuntime_def dropAnswer_def Let_def t split: prod.splits sum.splits)
  have e: "call (crossingRuntime ar) (LightEnter m l) w = (None, setTimer m l (literal ar 0) w)"
    by (simp add: crossingRuntime_def)
  have n: "callUpdate (crossingRuntime ar) (LightUpdate m l) d'
          (snd (callUpdate (crossingRuntime ar) (LightUpdate m l) d w)) =
        dropAnswer (trigger (crossingRuntime ar) m ''TIMER_EXPIRED''
                      (setTimer m l (addition ar (addition ar (timer (env w) m l) d) d') w))"
    if "greaterEq ar (addition ar (timer (env w) m l) d) (literal ar (duration l))"
      and "trigger (crossingRuntime ar) m ''TIMER_EXPIRED''
             (setTimer m l (addition ar (timer (env w) m l) d) w) =
           (Inr False, setTimer m l (addition ar (timer (env w) m l) d) w)"
      and "greaterEq ar (addition ar (addition ar (timer (env w) m l) d) d') (literal ar (duration l))"
  proof -
    have "snd (callUpdate (crossingRuntime ar) (LightUpdate m l) d w) =
            setTimer m l (addition ar (timer (env w) m l) d) w"
      using that(1,2) by (simp add: u dropAnswer_def)
    then show ?thesis
      using that(3) by (simp add: u t s)
  qed
  from t u e n show ?thesis by simp
qed

theorem timer_behaviour_witness:
  "greaterEq wholeNumbers
     (addition wholeNumbers
        (timer (env (snd (update (crossingRuntime wholeNumbers) NS (Whole 30000) (started wholeNumbers))))
           EW Red) (Whole 30000))
     (literal wholeNumbers (duration Red)) \<and>
   callUpdate (crossingRuntime wholeNumbers) (LightUpdate EW Red) (Whole 5000)
       (snd (callUpdate (crossingRuntime wholeNumbers) (LightUpdate EW Red) (Whole 30000)
               (snd (update (crossingRuntime wholeNumbers) NS (Whole 30000) (started wholeNumbers))))) =
     dropAnswer (trigger (crossingRuntime wholeNumbers) EW ''TIMER_EXPIRED''
                   (setTimer EW Red (Whole 35000)
                      (snd (update (crossingRuntime wholeNumbers) NS (Whole 30000)
                              (started wholeNumbers))))) \<and>
   fst (trigger (crossingRuntime wholeNumbers) EW ''TIMER_EXPIRED''
          (setTimer EW Red (Whole 35000)
             (snd (update (crossingRuntime wholeNumbers) NS (Whole 30000) (started wholeNumbers))))) =
     Inr False"
proof -
  let ?w = "snd (update (crossingRuntime wholeNumbers) NS (Whole 30000) (started wholeNumbers))"
  have a: "addition wholeNumbers (timer (env ?w) EW Red) (Whole 30000) = Whole 30000"
    and b: "addition wholeNumbers (Whole 30000) (Whole 5000) = Whole 35000"
    and c: "literal wholeNumbers (duration Red) = Whole 30000"
    by (simp_all add: started_def wholeNumbers_def inRange_def engine_defs crossing_defs)
  have h: "trigger (crossingRuntime wholeNumbers) EW ''TIMER_EXPIRED'' (setTimer EW Red (Whole 30000) ?w) =
           (Inr False, setTimer EW Red (Whole 30000) ?w)"
    by (simp add: started_def wholeNumbers_def inRange_def engine_defs crossing_defs)
  have f: "fst (trigger (crossingRuntime wholeNumbers) EW ''TIMER_EXPIRED''
                  (setTimer EW Red (Whole 35000) ?w)) = Inr False"
    by (simp add: started_def wholeNumbers_def inRange_def engine_defs crossing_defs)
  have g: "greaterEq wholeNumbers (Whole 30000) (Whole 30000)"
          "greaterEq wholeNumbers (Whole 35000) (Whole 30000)"
    by (simp_all add: wholeNumbers_def inRange_def)
  from timer_behaviour[of wholeNumbers EW Red ?w _ "Whole 30000" "Whole 5000",
      THEN conjunct2, THEN conjunct2, THEN conjunct2, rule_format, unfolded a b c, OF conjI[OF g(1) conjI[OF h g(2)]]]
    f g
  show ?thesis by (simp only: a b c)
qed

end
